theory Spec2Isabelle
  imports Main "HOL-Library.Word"
begin

section \<open>The instruction program\<close>

text \<open>
  Modelled from the spec: the instruction type \<open>inst\<close>, its operation tags and the
  program type \<open>prog\<close> are declared outside \<open>regexp/dfa.go\<close>.  The spec (section 3)
  gives four instruction kinds, \<open>Jmp{to}\<close>, \<open>Split{a,b}\<close>, \<open>Range{lo,hi}\<close> and
  \<open>Match\<close>; \<open>dfa.go\<close> reads them through the fields \<open>op\<close>, \<open>to\<close>, \<open>splitA\<close>,
  \<open>splitB\<close>, \<open>rangeStart\<close> and \<open>rangeEnd\<close>, which are the fields of the record.
  Indices are Go \<open>uint\<close>s.  They are modelled as \<open>nat\<close>: the only arithmetic on
  them is \<open>ip + 1\<close> for an \<open>ip\<close> that has just indexed the program, and
  \<open>len - 1\<close> right after an append, neither of which can wrap.
\<close>

type_synonym byte = "8 word"

datatype instOp = OpMatch | OpJmp | OpSplit | OpRange

record inst =
  op :: instOp
  to :: nat
  splitA :: nat
  splitB :: nat
  rangeStart :: byte
  rangeEnd :: byte

type_synonym prog = "inst list"

section \<open>The index set\<close>

text \<open>
  Modelled from the spec: the type \<open>sparseSet\<close> and its operations \<open>newSparseSet\<close>,
  \<open>Len\<close>, \<open>Get\<close>, \<open>Contains\<close>, \<open>Add\<close> and \<open>Clear\<close> are declared outside
  \<open>regexp/dfa.go\<close>.  The spec (sections 3 and 4.1) describes a set of fixed capacity
  that iterates in insertion order, whose \<open>add\<close> appends an absent index and is a
  no-op on a present one, and whose \<open>clear\<close> resets the length.  The record keeps
  the capacity and the members in insertion order.
\<close>

record sparseSet =
  capacity :: nat
  dense :: "nat list"

definition newSparseSet :: "nat \<Rightarrow> sparseSet" where
  "newSparseSet n = \<lparr>capacity = n, dense = []\<rparr>"

definition Len :: "sparseSet \<Rightarrow> nat" where
  "Len s = length (dense s)"

definition Get :: "sparseSet \<Rightarrow> nat \<Rightarrow> nat" where
  "Get s i = dense s ! i"

definition Contains :: "sparseSet \<Rightarrow> nat \<Rightarrow> bool" where
  "Contains s ip = (ip \<in> set (dense s))"

definition Add :: "sparseSet \<Rightarrow> nat \<Rightarrow> sparseSet" where
  "Add s ip = (if Contains s ip then s else s\<lparr>dense := dense s @ [ip]\<rparr>)"

definition Clear :: "sparseSet \<Rightarrow> sparseSet" where
  "Clear s = s\<lparr>dense := []\<rparr>"

text \<open>
  The loops \<open>for i := uint(0); i < uint(set.Len()); i++ { ip := set.Get(i) ... }\<close> of
  \<open>run\<close> and \<open>cachedState\<close> visit \<open>Get 0\<close>, ..., \<open>Get (Len - 1)\<close> in this order.
\<close>

definition members :: "sparseSet \<Rightarrow> nat list" where
  "members s = map (Get s) [0..<Len s]"

section \<open>States, the automaton and the builder\<close>

text \<open>
  The Go fields \<open>state.insts\<close>, \<open>state.next\<close> and \<open>state.match\<close> carry the prefix
  \<open>state_\<close>, since \<open>insts\<close> is also the field of \<open>dfa\<close>.  A \<open>*uint\<close> is a
  \<open>nat option\<close>, \<open>nil\<close> being \<open>None\<close>; every non-nil pointer of the builder
  points to a fresh variable that is never written again, so it is its value.
\<close>

record state =
  state_insts :: "nat list"
  state_next :: "nat option list"
  state_match :: bool

record dfa =
  insts :: prog
  states :: "state list"

record dfaBuilder =
  dfa :: dfa
  cache :: "string \<rightharpoonup> nat"

definition StateLimit :: nat where
  "StateLimit = 10000"

text \<open>
  \<open>ErrTooManyStates\<close> is the one error value of the package.  \<open>IndexOutOfRange\<close> stands
  for the run-time panic of a slice index that is out of range: where the source indexes
  \<open>d.insts[ip]\<close>, \<open>d.dfa.states[state]\<close> or \<open>next[b]\<close>, the model first makes the
  test that Go makes.  \<open>build\<close> returns \<open>(nil, ErrTooManyStates)\<close> or \<open>(d.dfa, nil)\<close>;
  the model returns \<open>Inl ErrTooManyStates\<close> or \<open>Inr\<close> of the automaton.
\<close>

datatype error = ErrTooManyStates | IndexOutOfRange

definition newDfaBuilder :: "prog \<Rightarrow> dfaBuilder" where
  "newDfaBuilder p = \<lparr>dfa = \<lparr>insts = p, states = []\<rparr>, cache = Map.empty\<rparr>"

type_synonym uintpStack = "nat option list"

definition Push :: "uintpStack \<Rightarrow> nat option \<Rightarrow> uintpStack" where
  "Push s v = s @ [v]"

definition Pop :: "uintpStack \<Rightarrow> uintpStack \<times> nat option" where
  "Pop s = (let l = length s in if l < 1 then (s, None) else (take (l - 1) s, s ! (l - 1)))"

section \<open>Epsilon closure: \<open>dfa.add\<close>\<close>

function add :: "dfa \<Rightarrow> sparseSet \<Rightarrow> nat \<Rightarrow> error + sparseSet" where
  "add d s ip =
     (if Contains s ip then Inr s
      else let s1 = Add s ip in
        if length (insts d) \<le> ip then Inl IndexOutOfRange
        else case op (insts d ! ip) of
            OpJmp \<Rightarrow> add d s1 (to (insts d ! ip))
          | OpSplit \<Rightarrow>
              (case add d s1 (splitA (insts d ! ip)) of
                 Inl e \<Rightarrow> Inl e
               | Inr s2 \<Rightarrow> add d s2 (splitB (insts d ! ip)))
          | _ \<Rightarrow> Inr s1)"
  by pat_completeness auto

lemma Contains_Add [simp]: "Contains (Add s ip) j = (j = ip \<or> Contains s j)"
  by (auto simp: Add_def Contains_def)

text \<open>
  The recursion is nested in the \<open>Split\<close> case, so its termination needs a fact about
  the result of the first call: a call never removes a member.
\<close>

lemma add_dom_mono:
  "add_dom (d, s, ip) \<Longrightarrow> add d s ip = Inr s' \<Longrightarrow> Contains s j \<Longrightarrow> Contains s' j"
proof (induction d s ip arbitrary: s' rule: add.pinduct)
  case (1 d s ip)
  show ?case
  proof (cases "Contains s ip")
    case True
    with 1 show ?thesis by (simp add: add.psimps)
  next
    case False
    note nc = this
    from 1(1,5) nc have lt: "ip < length (insts d)"
      by (simp add: add.psimps Let_def split: if_splits)
    then have nle: "\<not> length (insts d) \<le> ip" by simp
    have cj: "Contains (Add s ip) j" using 1(6) by simp
    show ?thesis
    proof (cases "op (insts d ! ip)")
      case OpJmp
      with 1(1,5) nc lt have "add d (Add s ip) (to (insts d ! ip)) = Inr s'"
        by (simp add: add.psimps Let_def)
      from 1(2)[OF nc refl nle OpJmp this cj] show ?thesis .
    next
      case OpSplit
      with 1(1,5) nc lt obtain s2 where
        a: "add d (Add s ip) (splitA (insts d ! ip)) = Inr s2" and
        b: "add d s2 (splitB (insts d ! ip)) = Inr s'"
        by (auto simp: add.psimps Let_def split: sum.splits)
      have "Contains s2 j" using 1(3)[OF nc refl nle OpSplit a cj] .
      then show ?thesis using 1(4)[OF nc refl nle OpSplit a b] by simp
    next
      case OpMatch
      with 1(1,5) nc lt have "s' = Add s ip" by (simp add: add.psimps Let_def)
      with cj show ?thesis by simp
    next
      case OpRange
      with 1(1,5) nc lt have "s' = Add s ip" by (simp add: add.psimps Let_def)
      with cj show ?thesis by simp
    qed
  qed
qed

definition unvisited :: "dfa \<Rightarrow> sparseSet \<Rightarrow> nat" where
  "unvisited d s = card {i. i < length (insts d) \<and> \<not> Contains s i}"

lemma unvisited_mono:
  "(\<And>j. Contains s j \<Longrightarrow> Contains s' j) \<Longrightarrow> unvisited d s' \<le> unvisited d s"
  unfolding unvisited_def by (rule card_mono) auto

lemma unvisited_Add:
  "\<not> Contains s ip \<Longrightarrow> ip < length (insts d) \<Longrightarrow> unvisited d (Add s ip) < unvisited d s"
  unfolding unvisited_def by (rule psubset_card_mono) auto

termination add
proof (relation "measure (\<lambda>(d, s, ip). unvisited d s)", goal_cases)
  case 1
  show ?case by simp
next
  case (2 d s ip x)
  then show ?case using unvisited_Add[of s ip d] by simp
next
  case (3 d s ip x)
  then show ?case using unvisited_Add[of s ip d] by simp
next
  case (4 d s ip x b)
  have "unvisited d b \<le> unvisited d (Add s ip)"
    using add_dom_mono[OF 4(6)] 4 by (intro unvisited_mono) auto
  then show ?case using unvisited_Add[of s ip d] 4 by simp
qed

declare add.simps [simp del]

section \<open>Byte step: \<open>dfa.run\<close>\<close>

fun run_loop :: "dfa \<Rightarrow> nat list \<Rightarrow> byte \<Rightarrow> sparseSet \<Rightarrow> bool \<Rightarrow> error + sparseSet \<times> bool" where
  "run_loop d [] b toSet isMatch = Inr (toSet, isMatch)"
| "run_loop d (ip # ips) b toSet isMatch =
     (if length (insts d) \<le> ip then Inl IndexOutOfRange
      else case op (insts d ! ip) of
          OpMatch \<Rightarrow> run_loop d ips b toSet True
        | OpRange \<Rightarrow>
            if rangeStart (insts d ! ip) \<le> b \<and> b \<le> rangeEnd (insts d ! ip)
            then (case add d toSet (ip + 1) of
                    Inl e \<Rightarrow> Inl e
                  | Inr toSet1 \<Rightarrow> run_loop d ips b toSet1 isMatch)
            else run_loop d ips b toSet isMatch
        | _ \<Rightarrow> run_loop d ips b toSet isMatch)"

definition run :: "dfa \<Rightarrow> sparseSet \<Rightarrow> sparseSet \<Rightarrow> byte \<Rightarrow> error + sparseSet \<times> bool" where
  "run d fromSet toSet b = run_loop d (members fromSet) b (Clear toSet) False"

section \<open>Interning a set: \<open>dfaBuilder.cachedState\<close>\<close>

text \<open>
  The cache key is \<open>fmt.Sprintf("%v", insts)\<close>: for a slice of unsigned integers, the
  decimal numerals separated by one space, in square brackets.
\<close>

fun show_uint :: "nat \<Rightarrow> string" where
  "show_uint n =
     (if n < 10 then [char_of (48 + n)]
      else show_uint (n div 10) @ [char_of (48 + n mod 10)])"

declare show_uint.simps [simp del]

fun join_space :: "string list \<Rightarrow> string" where
  "join_space [] = []"
| "join_space [x] = x"
| "join_space (x # y # ys) = x @ CHR '' '' # join_space (y # ys)"

definition Sprintf_v :: "nat list \<Rightarrow> string" where
  "Sprintf_v xs = CHR ''['' # join_space (map show_uint xs) @ [CHR '']'']"

fun cachedState_loop :: "dfa \<Rightarrow> nat list \<Rightarrow> nat list \<Rightarrow> bool \<Rightarrow> error + nat list \<times> bool" where
  "cachedState_loop d [] is isMatch = Inr (is, isMatch)"
| "cachedState_loop d (ip # ips) is isMatch =
     (if length (insts d) \<le> ip then Inl IndexOutOfRange
      else case op (insts d ! ip) of
          OpRange \<Rightarrow> cachedState_loop d ips (is @ [ip]) isMatch
        | OpMatch \<Rightarrow> cachedState_loop d ips (is @ [ip]) True
        | _ \<Rightarrow> cachedState_loop d ips is isMatch)"

definition cachedState :: "dfaBuilder \<Rightarrow> sparseSet \<Rightarrow> error + dfaBuilder \<times> nat option" where
  "cachedState d s =
     (case cachedState_loop (dfa d) (members s) [] False of
        Inl e \<Rightarrow> Inl e
      | Inr (is, isMatch) \<Rightarrow>
          if length is = 0 then Inr (d, None)
          else let k = Sprintf_v is in
            case cache d k of
              Some v \<Rightarrow> Inr (d, Some v)
            | None \<Rightarrow>
                let sts = states (dfa d) @
                      [\<lparr>state_insts = is, state_next = replicate 256 None, state_match = isMatch\<rparr>];
                    newV = length sts - 1
                in Inr (d\<lparr>dfa := (dfa d)\<lparr>states := sts\<rparr>, cache := (cache d)(k \<mapsto> newV)\<rparr>,
                        Some newV))"

section \<open>One transition: \<open>dfaBuilder.runState\<close>\<close>

text \<open>
  \<open>cur\<close> and \<open>next\<close> are the two scratch sets of \<open>build\<close>; \<open>runState\<close> overwrites both,
  so the model returns them with the builder.  The assignment to
  \<open>d.dfa.states[state].next[b]\<close> goes through the state pointer stored at \<open>state\<close>;
  the slice of states only grows, so this is the element at that index.
\<close>

definition runState ::
  "dfaBuilder \<Rightarrow> sparseSet \<Rightarrow> sparseSet \<Rightarrow> nat \<Rightarrow> byte
     \<Rightarrow> error + dfaBuilder \<times> sparseSet \<times> sparseSet \<times> nat option" where
  "runState d cur nxt st b =
     (let cur1 = Clear cur in
      if length (states (dfa d)) \<le> st then Inl IndexOutOfRange
      else let cur2 = foldl Add cur1 (state_insts (states (dfa d) ! st)) in
        case run (dfa d) cur2 nxt b of
          Inl e \<Rightarrow> Inl e
        | Inr (nxt1, wasMatch) \<Rightarrow>
            (case cachedState d nxt1 of
               Inl e \<Rightarrow> Inl e
             | Inr (d1, nextState) \<Rightarrow>
                 let sts = states (dfa d1); s = sts ! st in
                 if length (state_next s) \<le> unat b then Inl IndexOutOfRange
                 else Inr (d1\<lparr>dfa := (dfa d1)\<lparr>states :=
                              sts[st := s\<lparr>state_next := (state_next s)[unat b := nextState]\<rparr>]\<rparr>\<rparr>,
                           cur2, nxt1, nextState)))"

section \<open>Subset construction: \<open>dfaBuilder.build\<close>\<close>

text \<open>
  The local variables of \<open>build\<close> that its loops update: the builder, the two
  scratch sets, the stack \<open>states\<close> of state indices still to visit, and the map
  \<open>seen\<close>, of which only the key set matters.
\<close>

record frame =
  bld :: dfaBuilder
  cur :: sparseSet
  nxt :: sparseSet
  stack :: uintpStack
  seen :: "nat set"

text \<open>
  The statement \<open>if ns != nil { if _, ok := seen[*ns]; !ok { ... } }\<close>, and then the body
  of the loop over \<open>b\<close>, where \<open>byte(b)\<close> is \<open>of_nat b\<close>.
\<close>

definition mark_new :: "frame \<Rightarrow> nat option \<Rightarrow> frame" where
  "mark_new f ns =
     (case ns of
        None \<Rightarrow> f
      | Some n \<Rightarrow>
          if n \<in> seen f then f
          else f\<lparr>seen := insert n (seen f), stack := Push (stack f) ns\<rparr>)"

definition build_byte :: "frame \<Rightarrow> nat \<Rightarrow> nat \<Rightarrow> error + frame" where
  "build_byte f s b =
     (case runState (bld f) (cur f) (nxt f) s (of_nat b) of
        Inl e \<Rightarrow> Inl e
      | Inr (d1, cur1, nxt1, ns) \<Rightarrow>
          let f1 = mark_new (f\<lparr>bld := d1, cur := cur1, nxt := nxt1\<rparr>) ns
          in if StateLimit < length (states (dfa (bld f1))) then Inl ErrTooManyStates
             else Inr f1)"

fun build_bytes :: "frame \<Rightarrow> nat \<Rightarrow> nat list \<Rightarrow> error + frame" where
  "build_bytes f s [] = Inr f"
| "build_bytes f s (b # bs) =
     (case build_byte f s b of
        Inl e \<Rightarrow> Inl e
      | Inr f1 \<Rightarrow> build_bytes f1 s bs)"

text \<open>
  The loop \<open>for s != nil\<close>.  It ends on every frame: a visited state lies below the
  limit, an index below the limit is pushed at most once, and a pushed index at or above
  the limit is never visited with success.
\<close>

function build_loop :: "frame \<Rightarrow> nat option \<Rightarrow> error + dfa" where
  "build_loop f None = Inr (dfa (bld f))"
| "build_loop f (Some s) =
     (case build_bytes f s [0..<256] of
        Inl e \<Rightarrow> Inl e
      | Inr f1 \<Rightarrow>
          (case Pop (stack f1) of
             (stk, s1) \<Rightarrow> build_loop (f1\<lparr>stack := stk\<rparr>) s1))"
  by pat_completeness auto

lemma cachedState_length_states:
  "cachedState d s = Inr (d1, r) \<Longrightarrow> length (states (dfa d)) \<le> length (states (dfa d1))"
  by (auto simp: cachedState_def Let_def split: sum.splits prod.splits if_splits option.splits)

lemma runState_length_states:
  "runState d c n st b = Inr (d1, c1, n1, r) \<Longrightarrow>
     st < length (states (dfa d1))"
  by (auto simp: runState_def Let_def split: sum.splits prod.splits if_splits
           dest!: cachedState_length_states)

definition pending_weight :: "nat option \<Rightarrow> nat" where
  "pending_weight x = (case x of None \<Rightarrow> 0 | Some n \<Rightarrow> if n < StateLimit then 1 else 0)"

definition stack_weight :: "uintpStack \<Rightarrow> nat" where
  "stack_weight stk = sum_list (map pending_weight stk)"

definition unseen :: "frame \<Rightarrow> nat" where
  "unseen f = card ({..<StateLimit} - seen f)"

lemma unseen_insert:
  "n \<notin> seen f \<Longrightarrow> n < StateLimit \<Longrightarrow> seen f1 = insert n (seen f) \<Longrightarrow> unseen f1 < unseen f"
  unfolding unseen_def by (rule psubset_card_mono) auto

lemma unseen_insert_junk:
  "\<not> n < StateLimit \<Longrightarrow> seen f1 = insert n (seen f) \<Longrightarrow> unseen f1 = unseen f"
  unfolding unseen_def by (rule arg_cong[where f=card]) auto

lemma build_byte_measure:
  assumes "build_byte f s b = Inr f2"
  shows "s < StateLimit \<and>
         (unseen f2 < unseen f \<or> unseen f2 = unseen f \<and> stack_weight (stack f2) = stack_weight (stack f))"
proof -
  from assms obtain d1 c1 n1 ns where
    rs: "runState (bld f) (cur f) (nxt f) s (of_nat b) = Inr (d1, c1, n1, ns)"
    by (auto simp: build_byte_def split: sum.splits)
  have f2: "f2 = mark_new (f\<lparr>bld := d1, cur := c1, nxt := n1\<rparr>) ns"
    and lim: "length (states (dfa (bld f2))) \<le> StateLimit"
    using assms rs by (auto simp: build_byte_def Let_def split: if_splits)
  have bld2: "bld f2 = d1" using f2 by (auto simp: mark_new_def split: option.splits)
  have "s < StateLimit" using runState_length_states[OF rs] lim bld2 by simp
  moreover have "unseen f2 < unseen f \<or> unseen f2 = unseen f \<and> stack_weight (stack f2) = stack_weight (stack f)"
  proof (cases ns)
    case None
    then show ?thesis using f2 by (simp add: mark_new_def unseen_def)
  next
    case (Some n)
    show ?thesis
    proof (cases "n \<in> seen f")
      case True
      then show ?thesis using f2 Some by (simp add: mark_new_def unseen_def)
    next
      case False
      then have s2: "seen f2 = insert n (seen f)" and st2: "stack f2 = stack f @ [Some n]"
        using f2 Some by (simp_all add: mark_new_def Push_def)
      show ?thesis
      proof (cases "n < StateLimit")
        case True
        then show ?thesis using unseen_insert[OF False True s2] by simp
      next
        case False
        then show ?thesis using unseen_insert_junk[OF False s2] st2
          by (simp add: stack_weight_def pending_weight_def)
      qed
    qed
  qed
  ultimately show ?thesis by simp
qed

lemma build_bytes_measure:
  "build_bytes f s bs = Inr f2 \<Longrightarrow>
     unseen f2 < unseen f \<or> unseen f2 = unseen f \<and> stack_weight (stack f2) = stack_weight (stack f)"
proof (induction bs arbitrary: f)
  case Nil
  then show ?case by simp
next
  case (Cons b bs)
  from Cons.prems obtain f1 where b1: "build_byte f s b = Inr f1" and b2: "build_bytes f1 s bs = Inr f2"
    by (auto split: sum.splits)
  from build_byte_measure[OF b1] Cons.IH[OF b2] show ?case by auto
qed

lemma build_bytes_current:
  "build_bytes f s (b # bs) = Inr f2 \<Longrightarrow> s < StateLimit"
  by (auto split: sum.splits dest: build_byte_measure)

lemma Pop_weight:
  "Pop stk = (stk1, s1) \<Longrightarrow> stack_weight stk1 + pending_weight s1 = stack_weight stk"
proof (cases stk rule: rev_cases)
  case Nil
  assume "Pop stk = (stk1, s1)"
  with Nil show ?thesis by (simp add: Pop_def stack_weight_def pending_weight_def)
next
  case (snoc ys y)
  assume "Pop stk = (stk1, s1)"
  with snoc show ?thesis by (auto simp: Pop_def Let_def stack_weight_def)
qed

termination build_loop
proof (relation "inv_image (less_than <*lex*> less_than)
                   (\<lambda>(f, s). (unseen f, stack_weight (stack f) + pending_weight s))", goal_cases)
  case 1
  show ?case by (intro wf_inv_image wf_lex_prod wf_less_than)
next
  case (2 f s f1 stk s1)
  have up: "[0..<256] = 0 # [1..<256]" by (simp add: upt_rec)
  from 2(1) have cur: "s < StateLimit" unfolding up by (rule build_bytes_current)
  from 2(2) have pop: "Pop (stack f1) = (stk, s1)" by simp
  from Pop_weight[OF pop] build_bytes_measure[OF 2(1)] cur
  show ?case by (auto simp: unseen_def pending_weight_def)
qed

definition build :: "dfaBuilder \<Rightarrow> error + dfa" where
  "build d =
     (let cur0 = newSparseSet (length (insts (dfa d)));
          nxt0 = newSparseSet (length (insts (dfa d)))
      in case add (dfa d) cur0 0 of
           Inl e \<Rightarrow> Inl e
         | Inr cur1 \<Rightarrow>
             (case cachedState d cur1 of
                Inl e \<Rightarrow> Inl e
              | Inr (d1, s0) \<Rightarrow>
                  (case Pop [s0] of
                     (stk, s) \<Rightarrow>
                       build_loop \<lparr>bld = d1, cur = cur1, nxt = nxt0, stack = stk, seen = {}\<rparr> s)))"

section \<open>Specification: programs, signatures and invariants\<close>

text \<open>
  The predicates and sets in which the properties of the builder are stated, and the
  programs of the examples.
\<close>

text \<open>
  The precondition of the spec (section 7): every \<open>Jmp\<close> and \<open>Split\<close> target is an
  index of the program.
\<close>

definition targets_in_bounds :: "prog \<Rightarrow> bool" where
  "targets_in_bounds p =
     list_all (\<lambda>i. case op i of
                  OpJmp \<Rightarrow> to i < length p
                | OpSplit \<Rightarrow> splitA i < length p \<and> splitB i < length p
                | _ \<Rightarrow> True) p"

text \<open>What a call appends: fresh indices of the program, each once.\<close>

definition fresh_for :: "dfa \<Rightarrow> sparseSet \<Rightarrow> nat list \<Rightarrow> bool" where
  "fresh_for d s xs =
     (distinct xs \<and> set xs \<inter> set (dense s) = {} \<and> (\<forall>x \<in> set xs. x < length (insts d)))"

subsection \<open>The epsilon graph\<close>

text \<open>
  The edges of \<open>Jmp\<close> and \<open>Split\<close>; \<open>eps_closure p S\<close> is what they reach from \<open>S\<close>,
  and a set is closed if no edge leaves it.
\<close>

definition eps_succs :: "prog \<Rightarrow> nat \<Rightarrow> nat set" where
  "eps_succs p i =
     (if i < length p then
        (case op (p ! i) of
           OpJmp \<Rightarrow> {to (p ! i)}
         | OpSplit \<Rightarrow> {splitA (p ! i), splitB (p ! i)}
         | _ \<Rightarrow> {})
      else {})"

definition eps_rel :: "prog \<Rightarrow> (nat \<times> nat) set" where
  "eps_rel p = {(i, j). j \<in> eps_succs p i}"

definition eps_closure :: "prog \<Rightarrow> nat set \<Rightarrow> nat set" where
  "eps_closure p S = (eps_rel p)\<^sup>* `` S"

definition eps_closed :: "prog \<Rightarrow> nat set \<Rightarrow> bool" where
  "eps_closed p S = (\<forall>x \<in> S. eps_succs p x \<subseteq> S)"

subsection \<open>Example programs\<close>

text \<open>
  The four instruction kinds, and the programs of the spec's examples: \<open>a\<close>,
  \<open>a|b\<close> and \<open>a*\<close>.
\<close>

definition iJmp :: "nat \<Rightarrow> inst" where
  "iJmp t = \<lparr>op = OpJmp, to = t, splitA = 0, splitB = 0, rangeStart = 0, rangeEnd = 0\<rparr>"

definition iSplit :: "nat \<Rightarrow> nat \<Rightarrow> inst" where
  "iSplit a b = \<lparr>op = OpSplit, to = 0, splitA = a, splitB = b, rangeStart = 0, rangeEnd = 0\<rparr>"

definition iRange :: "byte \<Rightarrow> byte \<Rightarrow> inst" where
  "iRange lo hi = \<lparr>op = OpRange, to = 0, splitA = 0, splitB = 0, rangeStart = lo, rangeEnd = hi\<rparr>"

definition iMatch :: inst where
  "iMatch = \<lparr>op = OpMatch, to = 0, splitA = 0, splitB = 0, rangeStart = 0, rangeEnd = 0\<rparr>"

definition prog_a :: prog where
  "prog_a = [iRange 97 97, iMatch]"

definition prog_a_or_b :: prog where
  "prog_a_or_b = [iSplit 1 3, iRange 97 97, iJmp 4, iRange 98 98, iMatch]"

definition prog_a_star :: prog where
  "prog_a_star = [iSplit 1 3, iRange 97 97, iJmp 0, iMatch]"

text \<open>The automaton of \<open>newDfaBuilder p\<close>: the program and no state.\<close>

definition dfa_of :: "prog \<Rightarrow> dfa" where
  "dfa_of p = \<lparr>insts = p, states = []\<rparr>"

subsection \<open>Byte steps and signatures\<close>

text \<open>
  A \<open>Range\<close> instruction falls through to the next index, so the last instruction of a
  program that \<open>run\<close> can execute is not a \<open>Range\<close>.
\<close>

definition falls_in_bounds :: "prog \<Rightarrow> bool" where
  "falls_in_bounds p = list_all (\<lambda>i. op (p ! i) \<noteq> OpRange \<or> i + 1 < length p) [0..<length p]"

text \<open>
  A \<open>Range\<close> instruction covers the bytes between its bounds; the byte step starts its
  closure from the successors of the covering members.
\<close>

definition covers :: "inst \<Rightarrow> byte \<Rightarrow> bool" where
  "covers i b = (op i = OpRange \<and> rangeStart i \<le> b \<and> b \<le> rangeEnd i)"

definition step_seeds :: "prog \<Rightarrow> nat list \<Rightarrow> byte \<Rightarrow> nat set" where
  "step_seeds p ips b = {ip + 1 | ip. ip \<in> set ips \<and> covers (p ! ip) b}"

text \<open>A list of indices holds a \<open>Match\<close>; a list of indices lies in the program.\<close>

definition has_match :: "prog \<Rightarrow> nat list \<Rightarrow> bool" where
  "has_match p ips = list_ex (\<lambda>ip. op (p ! ip) = OpMatch) ips"

definition in_prog :: "prog \<Rightarrow> nat list \<Rightarrow> bool" where
  "in_prog p ips = list_all (\<lambda>ip. ip < length p) ips"

text \<open>
  The significant instructions are \<open>Range\<close> and \<open>Match\<close>; the signature of a set is the
  list of its significant members, in insertion order.
\<close>

definition significant :: "prog \<Rightarrow> nat \<Rightarrow> bool" where
  "significant p ip = (op (p ! ip) = OpRange \<or> op (p ! ip) = OpMatch)"

definition signature :: "prog \<Rightarrow> nat list \<Rightarrow> nat list" where
  "signature p ips = filter (significant p) ips"

text \<open>What \<open>cachedState\<close> does with the signature it has computed.\<close>

definition intern :: "dfaBuilder \<Rightarrow> nat list \<Rightarrow> dfaBuilder \<times> nat option" where
  "intern d sg =
     (if sg = [] then (d, None)
      else case cache d (Sprintf_v sg) of
          Some v \<Rightarrow> (d, Some v)
        | None \<Rightarrow>
            (d\<lparr>dfa := (dfa d)\<lparr>states := states (dfa d) @
                  [\<lparr>state_insts = sg, state_next = replicate 256 None,
                    state_match = has_match (insts (dfa d)) sg\<rparr>]\<rparr>,
               cache := (cache d)(Sprintf_v sg \<mapsto> length (states (dfa d)))\<rparr>,
             Some (length (states (dfa d)))))"

subsection \<open>The points of a build and the invariant of the states\<close>

text \<open>
  \<open>cachedState\<close> and \<open>runState\<close> are the only operations of \<open>build\<close> that change the
  builder.  \<open>builder_steps d d'\<close> holds if \<open>d'\<close> comes from \<open>d\<close> by any number of them,
  on any arguments.
\<close>

inductive builder_steps :: "dfaBuilder \<Rightarrow> dfaBuilder \<Rightarrow> bool" where
  steps_refl: "builder_steps d d"
| steps_cachedState:
    "builder_steps d d1 \<Longrightarrow> cachedState d1 s = Inr (d2, r) \<Longrightarrow> builder_steps d d2"
| steps_runState:
    "builder_steps d d1 \<Longrightarrow> runState d1 c n st b = Inr (d2, c2, n2, r) \<Longrightarrow> builder_steps d d2"

text \<open>
  Every signature lists indices of \<open>Range\<close> and \<open>Match\<close> instructions of the program,
  every table has 256 slots, and every slot that is not reject is below the number of
  states.
\<close>

definition dfa_inv :: "dfa \<Rightarrow> bool" where
  "dfa_inv dd =
     (\<forall>st \<in> set (states dd).
        (\<forall>ip \<in> set (state_insts st).
           ip < length (insts dd) \<and>
           (op (insts dd ! ip) = OpRange \<or> op (insts dd ! ip) = OpMatch)) \<and>
        length (state_next st) = 256 \<and>
        (\<forall>j. Some j \<in> set (state_next st) \<longrightarrow> j < length (states dd)))"

text \<open>The invariant is inductive together with the same bound on the cached indices.\<close>

definition builder_inv :: "dfaBuilder \<Rightarrow> bool" where
  "builder_inv d =
     (dfa_inv (dfa d) \<and> (\<forall>k v. cache d k = Some v \<longrightarrow> v < length (states (dfa d))))"

subsection \<open>Reachable signatures\<close>

text \<open>
  The signature of the closure of instruction 0, the signature that a byte leads to,
  and the signatures reachable from the start.  They are computed by \<open>add\<close> and \<open>run\<close>
  on fresh sets of the program's capacity.
\<close>

definition start_sig :: "prog \<Rightarrow> nat list" where
  "start_sig p =
     (case add (dfa_of p) (newSparseSet (length p)) 0 of
        Inl e \<Rightarrow> []
      | Inr s \<Rightarrow> signature p (dense s))"

definition sig_step :: "prog \<Rightarrow> nat list \<Rightarrow> byte \<Rightarrow> nat list" where
  "sig_step p sg b =
     (case run (dfa_of p) \<lparr>capacity = length p, dense = sg\<rparr> (newSparseSet (length p)) b of
        Inl e \<Rightarrow> []
      | Inr (t, m) \<Rightarrow> signature p (dense t))"

inductive_set reach_sigs :: "prog \<Rightarrow> nat list set" for p :: prog where
  reach_start: "start_sig p \<noteq> [] \<Longrightarrow> start_sig p \<in> reach_sigs p"
| reach_step: "sg \<in> reach_sigs p \<Longrightarrow> sig_step p sg b \<noteq> [] \<Longrightarrow> sig_step p sg b \<in> reach_sigs p"

text \<open>
  A well-formed program is not empty, and neither a target nor a fall-through leaves
  it.  A well-formed signature is not empty, lies in the program, has no index twice
  and only significant ones.
\<close>

definition wf_prog :: "prog \<Rightarrow> bool" where
  "wf_prog p = (p \<noteq> [] \<and> targets_in_bounds p \<and> falls_in_bounds p)"

definition sig_ok :: "prog \<Rightarrow> nat list \<Rightarrow> bool" where
  "sig_ok p sg = (sg \<noteq> [] \<and> in_prog p sg \<and> distinct sg \<and> signature p sg = sg)"

subsection \<open>The invariants of the construction\<close>

text \<open>
  The cache maps the key of each state's signature to the state's index, and nothing
  else.  The states carry reachable signatures and the match flag of their signature.
\<close>

definition cache_inv :: "dfaBuilder \<Rightarrow> bool" where
  "cache_inv d =
     ((\<forall>i < length (states (dfa d)).
         cache d (Sprintf_v (state_insts (states (dfa d) ! i))) = Some i) \<and>
      (\<forall>k v. cache d k = Some v \<longrightarrow>
         v < length (states (dfa d)) \<and> k = Sprintf_v (state_insts (states (dfa d) ! v))))"

definition state_ok :: "prog \<Rightarrow> state \<Rightarrow> bool" where
  "state_ok p st =
     (state_insts st \<in> reach_sigs p \<and> state_match st = has_match p (state_insts st))"

definition strong_inv :: "prog \<Rightarrow> dfaBuilder \<Rightarrow> bool" where
  "strong_inv p d =
     (insts (dfa d) = p \<and> builder_inv d \<and> cache_inv d \<and>
      (\<forall>st \<in> set (states (dfa d)). state_ok p st))"

text \<open>What a slot may hold for a signature: reject for the empty one, else a state with it.\<close>

definition target_ok :: "state list \<Rightarrow> nat list \<Rightarrow> nat option \<Rightarrow> bool" where
  "target_ok sts sg r =
     (case r of
        None \<Rightarrow> sg = []
      | Some j \<Rightarrow> j < length sts \<and> state_insts (sts ! j) = sg)"

text \<open>A later list of states keeps the signatures of an earlier one.\<close>

definition grows :: "state list \<Rightarrow> state list \<Rightarrow> bool" where
  "grows sts sts1 =
     (length sts \<le> length sts1 \<and>
      (\<forall>i < length sts. state_insts (sts1 ! i) = state_insts (sts ! i)))"

text \<open>
  How a transition changes the states: it may append one state, which is then the
  target; it writes the target into one slot of the visited state; it changes nothing
  else.
\<close>

definition slot_written :: "state list \<Rightarrow> state list \<Rightarrow> nat \<Rightarrow> nat \<Rightarrow> nat option \<Rightarrow> bool" where
  "slot_written sts sts2 st k r =
     (grows sts sts2 \<and> length sts2 \<le> Suc (length sts) \<and>
      (\<forall>i < length sts. i \<noteq> st \<longrightarrow> sts2 ! i = sts ! i) \<and>
      state_next (sts2 ! st) = (state_next (sts ! st))[k := r] \<and>
      (\<forall>i. length sts \<le> i \<and> i < length sts2 \<longrightarrow> r = Some i))"

text \<open>
  Slot \<open>b\<close> of state \<open>i\<close> holds the target of the byte step of its signature; a
  processed state is one with all its slots done.
\<close>

definition slot_done :: "prog \<Rightarrow> state list \<Rightarrow> nat \<Rightarrow> byte \<Rightarrow> bool" where
  "slot_done p sts i b =
     target_ok sts (sig_step p (state_insts (sts ! i)) b) (state_next (sts ! i) ! unat b)"

definition processed :: "prog \<Rightarrow> state list \<Rightarrow> nat \<Rightarrow> bool" where
  "processed p sts i = (\<forall>b. slot_done p sts i b)"

text \<open>
  The invariant of the loop over the bytes, for the visited state \<open>s\<close> and the set \<open>D\<close> of
  bytes already done, and the invariant of the loop over the stack, for the popped
  value: every state that is neither visited nor on the stack is processed.
\<close>

definition stack_ok :: "uintpStack \<Rightarrow> nat \<Rightarrow> bool" where
  "stack_ok stk n = (\<forall>x \<in> set stk. \<exists>i. x = Some i \<and> i < n)"

definition frame_inv :: "prog \<Rightarrow> frame \<Rightarrow> nat \<Rightarrow> byte set \<Rightarrow> bool" where
  "frame_inv p f s D =
     (strong_inv p (bld f) \<and> s < length (states (dfa (bld f))) \<and>
      stack_ok (stack f) (length (states (dfa (bld f)))) \<and>
      seen f \<subseteq> {..<length (states (dfa (bld f)))} \<and>
      (\<forall>i < length (states (dfa (bld f))).
         i = s \<or> Some i \<in> set (stack f) \<or> processed p (states (dfa (bld f))) i) \<and>
      (\<forall>b \<in> D. slot_done p (states (dfa (bld f))) s b) \<and>
      state_insts (states (dfa (bld f)) ! 0) = start_sig p)"

definition start_ok :: "prog \<Rightarrow> state list \<Rightarrow> bool" where
  "start_ok p sts = (if sts = [] then start_sig p = [] else state_insts (sts ! 0) = start_sig p)"

definition loop_inv :: "prog \<Rightarrow> frame \<Rightarrow> nat option \<Rightarrow> bool" where
  "loop_inv p f so =
     (strong_inv p (bld f) \<and>
      stack_ok (stack f) (length (states (dfa (bld f)))) \<and>
      (case so of None \<Rightarrow> stack f = [] | Some s \<Rightarrow> s < length (states (dfa (bld f)))) \<and>
      seen f \<subseteq> {..<length (states (dfa (bld f)))} \<and>
      (\<forall>i < length (states (dfa (bld f))).
         so = Some i \<or> Some i \<in> set (stack f) \<or> processed p (states (dfa (bld f))) i) \<and>
      length (states (dfa (bld f))) \<le> StateLimit \<and>
      start_ok p (states (dfa (bld f))))"

text \<open>
  The automaton of a finished construction: one state for each reachable signature,
  every slot of every state filled with the target the signature's byte step asks for.
\<close>

definition complete :: "prog \<Rightarrow> dfa \<Rightarrow> bool" where
  "complete p dd =
     (insts dd = p \<and> dfa_inv dd \<and>
      distinct (map state_insts (states dd)) \<and>
      set (map state_insts (states dd)) = reach_sigs p \<and>
      list_all (\<lambda>st. state_match st = has_match p (state_insts st)) (states dd) \<and>
      (\<forall>i < length (states dd). processed p (states dd) i) \<and>
      start_ok p (states dd) \<and> length (states dd) \<le> StateLimit)"

text \<open>
  A slot is reject when its table is made, and \<open>runState\<close> writes reject into the slot
  of a byte that no \<open>Range\<close> of the visited state's signature covers.
\<close>

definition reject_inv :: "dfa \<Rightarrow> bool" where
  "reject_inv dd =
     (\<forall>st \<in> set (states dd). \<forall>b.
        (\<forall>ip \<in> set (state_insts st). \<not> covers (insts dd ! ip) b) \<longrightarrow>
        state_next st ! unat b = None)"

subsection \<open>The automaton of example A, and two more programs\<close>

text \<open>The transition table of a new state, and a table with one target.\<close>

definition all_reject :: "nat option list" where
  "all_reject = replicate 256 None"

definition one_target :: "nat \<Rightarrow> nat \<Rightarrow> nat option list" where
  "one_target k j = all_reject[k := Some j]"

definition dfa_a :: dfa where
  "dfa_a =
     \<lparr>insts = prog_a,
      states = [\<lparr>state_insts = [0], state_next = one_target 97 1, state_match = False\<rparr>,
                \<lparr>state_insts = [1], state_next = all_reject, state_match = True\<rparr>]\<rparr>"

text \<open>A program that only jumps to itself.\<close>

definition prog_loop :: prog where
  "prog_loop = [iJmp 0]"


section \<open>Properties of the closure\<close>

lemma targets_in_bounds_Jmp:
  "targets_in_bounds p \<Longrightarrow> ip < length p \<Longrightarrow> op (p ! ip) = OpJmp \<Longrightarrow> to (p ! ip) < length p"
  by (auto simp: targets_in_bounds_def list_all_length split: instOp.splits)

lemma targets_in_bounds_Split:
  "targets_in_bounds p \<Longrightarrow> ip < length p \<Longrightarrow> op (p ! ip) = OpSplit \<Longrightarrow>
     splitA (p ! ip) < length p \<and> splitB (p ! ip) < length p"
  by (auto simp: targets_in_bounds_def list_all_length split: instOp.splits)

lemma members_dense [simp]: "members s = dense s"
proof -
  have "Get s = (!) (dense s)" by (rule ext) (simp add: Get_def)
  then show ?thesis by (simp add: members_def Len_def map_nth)
qed

lemma dense_Add: "dense (Add s ip) = (if ip \<in> set (dense s) then dense s else dense s @ [ip])"
  by (simp add: Add_def Contains_def)

lemma add_Contains: "Contains s ip \<Longrightarrow> add d s ip = Inr s"
  by (simp add: add.simps)

lemma add_Jmp:
  "\<not> Contains s ip \<Longrightarrow> ip < length (insts d) \<Longrightarrow> op (insts d ! ip) = OpJmp \<Longrightarrow>
     add d s ip = add d (Add s ip) (to (insts d ! ip))"
  by (subst add.simps) (simp add: Let_def)

lemma add_Split:
  "\<not> Contains s ip \<Longrightarrow> ip < length (insts d) \<Longrightarrow> op (insts d ! ip) = OpSplit \<Longrightarrow>
     add d s ip =
       (case add d (Add s ip) (splitA (insts d ! ip)) of
          Inl e \<Rightarrow> Inl e
        | Inr s2 \<Rightarrow> add d s2 (splitB (insts d ! ip)))"
  by (subst add.simps) (simp add: Let_def)

lemma add_Range:
  "\<not> Contains s ip \<Longrightarrow> ip < length (insts d) \<Longrightarrow> op (insts d ! ip) = OpRange \<Longrightarrow>
     add d s ip = Inr (Add s ip)"
  by (subst add.simps) (simp add: Let_def)

lemma add_Match:
  "\<not> Contains s ip \<Longrightarrow> ip < length (insts d) \<Longrightarrow> op (insts d ! ip) = OpMatch \<Longrightarrow>
     add d s ip = Inr (Add s ip)"
  by (subst add.simps) (simp add: Let_def)

lemma add_out_of_range:
  "\<not> Contains s ip \<Longrightarrow> length (insts d) \<le> ip \<Longrightarrow> add d s ip = Inl IndexOutOfRange"
  by (subst add.simps) (simp add: Let_def)

lemma fresh_for_Nil [simp]: "fresh_for d s []"
  by (simp add: fresh_for_def)

lemma fresh_for_append:
  "fresh_for d s xs \<Longrightarrow> fresh_for d (s\<lparr>dense := dense s @ xs\<rparr>) ys \<Longrightarrow> fresh_for d s (xs @ ys)"
  by (auto simp: fresh_for_def)

lemma add_appends:
  "targets_in_bounds (insts d) \<Longrightarrow> ip < length (insts d) \<Longrightarrow>
     \<exists>xs. add d s ip = Inr (s\<lparr>dense := dense s @ xs\<rparr>) \<and> fresh_for d s xs \<and>
          ip \<in> set (dense s) \<union> set xs"
proof (induction d s ip rule: add.induct)
  case (1 d s ip)
  show ?case
  proof (cases "Contains s ip")
    case True
    then have "add d s ip = Inr (s\<lparr>dense := dense s @ []\<rparr>)" by (simp add: add_Contains)
    moreover have "ip \<in> set (dense s)" using True by (simp add: Contains_def)
    ultimately show ?thesis by (intro exI[of _ "[]"]) simp
  next
    case False
    note nc = this
    have nle: "\<not> length (insts d) \<le> ip" using 1(5) by simp
    have nin: "ip \<notin> set (dense s)" using nc by (simp add: Contains_def)
    have s1: "Add s ip = s\<lparr>dense := dense s @ [ip]\<rparr>" using nc by (simp add: Add_def)
    have f1: "fresh_for d s [ip]" using nin 1(5) by (simp add: fresh_for_def)
    show ?thesis
    proof (cases "op (insts d ! ip)")
      case OpJmp
      have tb: "to (insts d ! ip) < length (insts d)"
        using targets_in_bounds_Jmp[OF 1(4,5) OpJmp] .
      from 1(1)[OF nc refl nle OpJmp 1(4) tb] obtain xs where
        r: "add d (Add s ip) (to (insts d ! ip)) = Inr ((Add s ip)\<lparr>dense := dense (Add s ip) @ xs\<rparr>)"
        and f: "fresh_for d (Add s ip) xs" by blast
      have "add d s ip = Inr (s\<lparr>dense := dense s @ (ip # xs)\<rparr>)"
        using add_Jmp[OF nc 1(5) OpJmp] r by (simp add: s1)
      moreover have "fresh_for d s (ip # xs)"
        using fresh_for_append[OF f1, of xs] f by (simp add: s1)
      ultimately show ?thesis by (intro exI[of _ "ip # xs"]) simp
    next
      case OpSplit
      have ab: "splitA (insts d ! ip) < length (insts d)" "splitB (insts d ! ip) < length (insts d)"
        using targets_in_bounds_Split[OF 1(4,5) OpSplit] by simp_all
      from 1(2)[OF nc refl nle OpSplit 1(4) ab(1)] obtain xs where
        r: "add d (Add s ip) (splitA (insts d ! ip)) = Inr ((Add s ip)\<lparr>dense := dense (Add s ip) @ xs\<rparr>)"
        and f: "fresh_for d (Add s ip) xs" by blast
      let ?s2 = "(Add s ip)\<lparr>dense := dense (Add s ip) @ xs\<rparr>"
      from 1(3)[OF nc refl nle OpSplit r 1(4) ab(2)] obtain ys where
        r2: "add d ?s2 (splitB (insts d ! ip)) = Inr (?s2\<lparr>dense := dense ?s2 @ ys\<rparr>)"
        and f2: "fresh_for d ?s2 ys" by blast
      have "add d s ip = Inr (s\<lparr>dense := dense s @ (ip # xs @ ys)\<rparr>)"
        using add_Split[OF nc 1(5) OpSplit] r r2 by (simp add: s1)
      moreover have "fresh_for d s (ip # xs @ ys)"
        using fresh_for_append[OF f1, of "xs @ ys"] fresh_for_append[OF f f2] by (simp add: s1)
      ultimately show ?thesis by (intro exI[of _ "ip # xs @ ys"]) simp
    next
      case OpMatch
      have "add d s ip = Inr (s\<lparr>dense := dense s @ [ip]\<rparr>)"
        using add_Match[OF nc 1(5) OpMatch] by (simp add: s1)
      with f1 show ?thesis by (intro exI[of _ "[ip]"]) simp
    next
      case OpRange
      have "add d s ip = Inr (s\<lparr>dense := dense s @ [ip]\<rparr>)"
        using add_Range[OF nc 1(5) OpRange] by (simp add: s1)
      with f1 show ?thesis by (intro exI[of _ "[ip]"]) simp
    qed
  qed
qed


section \<open>The closure computes the epsilon closure\<close>

lemma eps_closure_refl: "i \<in> eps_closure p {i}"
  by (simp add: eps_closure_def)

lemma eps_closure_step:
  "j \<in> eps_succs p i \<Longrightarrow> k \<in> eps_closure p {j} \<Longrightarrow> k \<in> eps_closure p {i}"
  by (auto simp: eps_closure_def eps_rel_def intro: converse_rtrancl_into_rtrancl)

lemma eps_closure_Un: "eps_closure p (A \<union> B) = eps_closure p A \<union> eps_closure p B"
  by (auto simp: eps_closure_def)

lemma eps_closure_empty [simp]: "eps_closure p {} = {}"
  by (simp add: eps_closure_def)

lemma eps_closed_closure:
  assumes "eps_closed p S" "i \<in> S"
  shows "eps_closure p {i} \<subseteq> S"
proof
  fix k assume "k \<in> eps_closure p {i}"
  then have "(i, k) \<in> (eps_rel p)\<^sup>*" by (simp add: eps_closure_def)
  then show "k \<in> S"
    by (induction rule: rtrancl_induct) (use assms in \<open>auto simp: eps_closed_def eps_rel_def\<close>)
qed

lemma add_visits:
  "add d s ip = Inr s' \<Longrightarrow>
     set (dense s) \<subseteq> set (dense s') \<and> ip \<in> set (dense s') \<and>
     set (dense s') \<subseteq> set (dense s) \<union> eps_closure (insts d) {ip} \<and>
     (\<forall>x \<in> set (dense s') - set (dense s). eps_succs (insts d) x \<subseteq> set (dense s'))"
proof (induction d s ip arbitrary: s' rule: add.induct)
  case (1 d s ip)
  let ?p = "insts d"
  show ?case
  proof (cases "Contains s ip")
    case True
    with 1(4) have "s' = s" by (simp add: add_Contains)
    with True show ?thesis by (simp add: Contains_def)
  next
    case False
    note nc = this
    have lt: "ip < length ?p"
      using 1(4) nc add_out_of_range[of s ip d] by (cases "ip < length ?p") auto
    then have nle: "\<not> length ?p \<le> ip" by simp
    have ds1: "set (dense (Add s ip)) = insert ip (set (dense s))"
      by (simp add: dense_Add insert_absorb)
    show ?thesis
    proof (cases "op (?p ! ip)")
      case OpJmp
      have sc: "eps_succs ?p ip = {to (?p ! ip)}" using lt OpJmp by (simp add: eps_succs_def)
      from 1(4) have r: "add d (Add s ip) (to (?p ! ip)) = Inr s'"
        by (simp add: add_Jmp[OF nc lt OpJmp])
      note ih = 1(1)[OF nc refl nle OpJmp r]
      have "eps_closure ?p {to (?p ! ip)} \<subseteq> eps_closure ?p {ip}"
        using eps_closure_step[of "to (?p ! ip)" ?p ip] sc by auto
      then show ?thesis using ih sc eps_closure_refl[of ip ?p] unfolding ds1 by auto
    next
      case OpSplit
      have sc: "eps_succs ?p ip = {splitA (?p ! ip), splitB (?p ! ip)}"
        using lt OpSplit by (simp add: eps_succs_def)
      from 1(4) obtain s2 where
        a: "add d (Add s ip) (splitA (?p ! ip)) = Inr s2" and
        b: "add d s2 (splitB (?p ! ip)) = Inr s'"
        by (auto simp: add_Split[OF nc lt OpSplit] split: sum.splits)
      note iha = 1(2)[OF nc refl nle OpSplit a]
      note ihb = 1(3)[OF nc refl nle OpSplit a b]
      have ca: "eps_closure ?p {splitA (?p ! ip)} \<subseteq> eps_closure ?p {ip}"
        using eps_closure_step[of "splitA (?p ! ip)" ?p ip] sc by auto
      have cb: "eps_closure ?p {splitB (?p ! ip)} \<subseteq> eps_closure ?p {ip}"
        using eps_closure_step[of "splitB (?p ! ip)" ?p ip] sc by auto
      have c1: "set (dense s) \<subseteq> set (dense s')" using iha ihb unfolding ds1 by auto
      have c2: "ip \<in> set (dense s')" using iha ihb unfolding ds1 by auto
      have a3: "set (dense s2) \<subseteq> insert ip (set (dense s)) \<union> eps_closure ?p {splitA (?p ! ip)}"
        using iha unfolding ds1 by blast
      have b3: "set (dense s') \<subseteq> set (dense s2) \<union> eps_closure ?p {splitB (?p ! ip)}"
        using ihb by blast
      have c3: "set (dense s') \<subseteq> set (dense s) \<union> eps_closure ?p {ip}"
        using a3 b3 ca cb eps_closure_refl[of ip ?p] by blast
      have c4: "\<forall>x \<in> set (dense s') - set (dense s). eps_succs ?p x \<subseteq> set (dense s')"
      proof
        fix x assume x: "x \<in> set (dense s') - set (dense s)"
        show "eps_succs ?p x \<subseteq> set (dense s')"
        proof (cases "x = ip")
          case True
          then show ?thesis using sc iha ihb by auto
        next
          case False
          note ne = this
          show ?thesis
          proof (cases "x \<in> set (dense s2)")
            case True
            then have "eps_succs ?p x \<subseteq> set (dense s2)" using iha x ne unfolding ds1 by auto
            then show ?thesis using ihb by auto
          next
            case False
            then show ?thesis using ihb x by auto
          qed
        qed
      qed
      from c1 c2 c3 c4 show ?thesis by simp
    next
      case OpMatch
      have sc: "eps_succs ?p ip = {}" using lt OpMatch by (simp add: eps_succs_def)
      from 1(4) have "s' = Add s ip" by (simp add: add_Match[OF nc lt OpMatch])
      then show ?thesis using sc eps_closure_refl[of ip ?p] unfolding ds1 by (auto simp: ds1)
    next
      case OpRange
      have sc: "eps_succs ?p ip = {}" using lt OpRange by (simp add: eps_succs_def)
      from 1(4) have "s' = Add s ip" by (simp add: add_Range[OF nc lt OpRange])
      then show ?thesis using sc eps_closure_refl[of ip ?p] unfolding ds1 by (auto simp: ds1)
    qed
  qed
qed

lemma add_closed:
  assumes "add d s ip = Inr s'" "eps_closed (insts d) (set (dense s))"
  shows "eps_closed (insts d) (set (dense s')) \<and>
         set (dense s') = set (dense s) \<union> eps_closure (insts d) {ip}"
proof -
  note v = add_visits[OF assms(1)]
  have cl: "eps_closed (insts d) (set (dense s'))"
    unfolding eps_closed_def
  proof
    fix x assume "x \<in> set (dense s')"
    show "eps_succs (insts d) x \<subseteq> set (dense s')"
    proof (cases "x \<in> set (dense s)")
      case True
      then show ?thesis using assms(2) v by (auto simp: eps_closed_def)
    next
      case False
      then show ?thesis using v \<open>x \<in> set (dense s')\<close> by auto
    qed
  qed
  moreover have "eps_closure (insts d) {ip} \<subseteq> set (dense s')"
    using eps_closed_closure[OF cl] v by simp
  ultimately show ?thesis using v by auto
qed


section \<open>The closure follows its rule, terminates and adds no index twice\<close>

text \<open>
  C3.  For a program whose \<open>Jmp\<close> and \<open>Split\<close> targets are in bounds, every set \<open>s\<close>
  and every index \<open>ip\<close> of the program: if \<open>ip\<close> is in \<open>s\<close>, \<open>add\<close> returns
  \<open>s\<close> unchanged.  Otherwise it appends \<open>ip\<close> and then, for \<open>Jmp\<close>, continues as the
  call on the target; for \<open>Split\<close>, as the call on \<open>splitA\<close> followed by the call on
  \<open>splitB\<close> from the set the first call returned; for \<open>Range\<close> and \<open>Match\<close>, it
  returns the set with \<open>ip\<close> appended.  In every case \<open>ip\<close> is a member of the result.
\<close>

theorem add_closure_rule:
  assumes "targets_in_bounds (insts d)" and "ip < length (insts d)"
  shows "(Contains s ip \<longrightarrow> add d s ip = Inr s) \<and>
         (\<not> Contains s ip \<longrightarrow>
            (let s1 = s\<lparr>dense := dense s @ [ip]\<rparr> in
             case op (insts d ! ip) of
               OpJmp \<Rightarrow> add d s ip = add d s1 (to (insts d ! ip))
             | OpSplit \<Rightarrow>
                 (\<exists>s2. add d s1 (splitA (insts d ! ip)) = Inr s2 \<and>
                       add d s ip = add d s2 (splitB (insts d ! ip)))
             | OpRange \<Rightarrow> add d s ip = Inr s1
             | OpMatch \<Rightarrow> add d s ip = Inr s1)) \<and>
         (\<exists>s'. add d s ip = Inr s' \<and> Contains s' ip)"
proof (intro conjI impI)
  assume "Contains s ip"
  then show "add d s ip = Inr s" by (rule add_Contains)
next
  assume nc: "\<not> Contains s ip"
  then have s1: "Add s ip = s\<lparr>dense := dense s @ [ip]\<rparr>" by (simp add: Add_def)
  show "let s1 = s\<lparr>dense := dense s @ [ip]\<rparr> in
        case op (insts d ! ip) of
          OpJmp \<Rightarrow> add d s ip = add d s1 (to (insts d ! ip))
        | OpSplit \<Rightarrow>
            (\<exists>s2. add d s1 (splitA (insts d ! ip)) = Inr s2 \<and>
                  add d s ip = add d s2 (splitB (insts d ! ip)))
        | OpRange \<Rightarrow> add d s ip = Inr s1
        | OpMatch \<Rightarrow> add d s ip = Inr s1"
  proof (cases "op (insts d ! ip)")
    case OpJmp
    then show ?thesis using add_Jmp[OF nc assms(2) OpJmp] by (simp add: s1)
  next
    case OpSplit
    have "splitA (insts d ! ip) < length (insts d)"
      using targets_in_bounds_Split[OF assms OpSplit] by simp
    from add_appends[OF assms(1) this, of "Add s ip"] obtain s2 where
      "add d (Add s ip) (splitA (insts d ! ip)) = Inr s2" by blast
    then show ?thesis using add_Split[OF nc assms(2) OpSplit] OpSplit by (simp add: s1)
  next
    case OpMatch
    then show ?thesis using add_Match[OF nc assms(2) OpMatch] by (simp add: s1)
  next
    case OpRange
    then show ?thesis using add_Range[OF nc assms(2) OpRange] by (simp add: s1)
  qed
next
  from add_appends[OF assms, of s] obtain xs where
    "add d s ip = Inr (s\<lparr>dense := dense s @ xs\<rparr>)" "ip \<in> set (dense s) \<union> set xs" by blast
  then show "\<exists>s'. add d s ip = Inr s' \<and> Contains s' ip"
    by (auto simp: Contains_def)
qed

lemma targets_prog_a_or_b: "targets_in_bounds (insts (dfa_of prog_a_or_b))"
  by (simp add: targets_in_bounds_def dfa_of_def prog_a_or_b_def iSplit_def iRange_def iJmp_def iMatch_def)

theorem add_closure_rule_witness:
  "targets_in_bounds (insts (dfa_of prog_a_or_b)) \<and> 0 < length (insts (dfa_of prog_a_or_b)) \<and>
   \<not> Contains (newSparseSet 5) 0 \<and>
   (\<exists>s2. add (dfa_of prog_a_or_b) \<lparr>capacity = 5, dense = [0]\<rparr> 1 = Inr s2 \<and>
         add (dfa_of prog_a_or_b) (newSparseSet 5) 0 = add (dfa_of prog_a_or_b) s2 3) \<and>
   (\<exists>s'. add (dfa_of prog_a_or_b) (newSparseSet 5) 0 = Inr s' \<and> Contains s' 0)"
proof -
  have lt: "0 < length (insts (dfa_of prog_a_or_b))"
    by (simp add: dfa_of_def prog_a_or_b_def)
  have nc: "\<not> Contains (newSparseSet 5) 0"
    by (simp add: Contains_def newSparseSet_def)
  have sp: "op (insts (dfa_of prog_a_or_b) ! 0) = OpSplit"
    "splitA (insts (dfa_of prog_a_or_b) ! 0) = 1" "splitB (insts (dfa_of prog_a_or_b) ! 0) = 3"
    by (simp_all add: dfa_of_def prog_a_or_b_def iSplit_def)
  show ?thesis
    using add_closure_rule[OF targets_prog_a_or_b lt, of "newSparseSet 5"] nc lt targets_prog_a_or_b
    by (simp add: sp Let_def newSparseSet_def)
qed

text \<open>
  C4.  For a program whose \<open>Jmp\<close> and \<open>Split\<close> targets are in bounds, every starting
  set and every index of the program, \<open>add\<close> returns a set (the function is total, and
  the result is not a panic), also on a cyclic instruction graph; what it appends to the
  set is a list without repetition of indices that were not members, so no index is
  added twice.
\<close>

theorem add_terminates_adds_once:
  assumes "targets_in_bounds (insts d)" and "ip < length (insts d)"
  shows "\<exists>xs. add d s ip = Inr (s\<lparr>dense := dense s @ xs\<rparr>) \<and> distinct xs \<and>
              set xs \<inter> set (dense s) = {} \<and> length xs \<le> length (insts d)"
proof -
  from add_appends[OF assms, of s] obtain xs where
    r: "add d s ip = Inr (s\<lparr>dense := dense s @ xs\<rparr>)" and f: "fresh_for d s xs" by blast
  from f have d: "distinct xs" and b: "set xs \<subseteq> {..<length (insts d)}"
    by (auto simp: fresh_for_def)
  have "length xs = card (set xs)" using d by (simp add: distinct_card)
  also have "\<dots> \<le> card {..<length (insts d)}" using b by (intro card_mono) auto
  finally have "length xs \<le> length (insts d)" by simp
  with r f d show ?thesis by (auto simp: fresh_for_def)
qed

lemma targets_prog_a_star: "targets_in_bounds (insts (dfa_of prog_a_star))"
  by (simp add: targets_in_bounds_def dfa_of_def prog_a_star_def iSplit_def iRange_def iJmp_def iMatch_def)

theorem add_terminates_adds_once_witness:
  "targets_in_bounds (insts (dfa_of prog_a_star)) \<and> 2 < length (insts (dfa_of prog_a_star)) \<and>
   (\<exists>xs. add (dfa_of prog_a_star) (newSparseSet 4) 2 = Inr \<lparr>capacity = 4, dense = xs\<rparr> \<and>
         distinct xs \<and> length xs \<le> 4)"
proof -
  have lt: "2 < length (insts (dfa_of prog_a_star))"
    by (simp add: dfa_of_def prog_a_star_def)
  have len: "length (insts (dfa_of prog_a_star)) = 4"
    by (simp add: dfa_of_def prog_a_star_def)
  show ?thesis
    using add_terminates_adds_once[OF targets_prog_a_star lt, of "newSparseSet 4"] lt targets_prog_a_star
    by (simp add: newSparseSet_def len)
qed

section \<open>Properties of the byte step\<close>

lemma falls_in_bounds_Range:
  "falls_in_bounds p \<Longrightarrow> ip < length p \<Longrightarrow> op (p ! ip) = OpRange \<Longrightarrow> ip + 1 < length p"
  by (auto simp: falls_in_bounds_def list_all_iff)

lemma step_seeds_Nil [simp]: "step_seeds p [] b = {}"
  by (simp add: step_seeds_def)

lemma step_seeds_Cons:
  "step_seeds p (ip # ips) b =
     (if covers (p ! ip) b then insert (ip + 1) (step_seeds p ips b) else step_seeds p ips b)"
  by (auto simp: step_seeds_def)

lemma eps_closure_insert:
  "eps_closure p (insert x S) = eps_closure p {x} \<union> eps_closure p S"
  using eps_closure_Un[of p "{x}" S] by simp

lemma fresh_for_distinct:
  "fresh_for d s xs \<Longrightarrow> distinct (dense s) \<Longrightarrow> in_prog (insts d) (dense s) \<Longrightarrow>
     distinct (dense s @ xs) \<and> in_prog (insts d) (dense s @ xs)"
  by (auto simp: fresh_for_def in_prog_def list_all_iff)

lemma run_loop_result:
  assumes "targets_in_bounds (insts d)" and "falls_in_bounds (insts d)"
  shows "in_prog (insts d) ips \<Longrightarrow> eps_closed (insts d) (set (dense t)) \<Longrightarrow>
         distinct (dense t) \<Longrightarrow> in_prog (insts d) (dense t) \<Longrightarrow>
         \<exists>t'. run_loop d ips b t m = Inr (t', m \<or> has_match (insts d) ips) \<and>
              set (dense t') = set (dense t) \<union> eps_closure (insts d) (step_seeds (insts d) ips b) \<and>
              eps_closed (insts d) (set (dense t')) \<and> distinct (dense t') \<and>
              in_prog (insts d) (dense t') \<and> capacity t' = capacity t"
proof (induction ips arbitrary: t m)
  case Nil
  then show ?case by (simp add: has_match_def)
next
  case (Cons ip ips)
  let ?p = "insts d"
  from Cons.prems(1) have lt: "ip < length ?p" and rest: "in_prog ?p ips"
    by (simp_all add: in_prog_def)
  show ?case
  proof (cases "covers (?p ! ip) b")
    case True
    then have rg: "op (?p ! ip) = OpRange" by (simp add: covers_def)
    have nx: "ip + 1 < length ?p" using falls_in_bounds_Range[OF assms(2) lt rg] .
    from add_appends[OF assms(1) nx, of t] obtain xs where
      a: "add d t (ip + 1) = Inr (t\<lparr>dense := dense t @ xs\<rparr>)" and f: "fresh_for d t xs" by blast
    let ?t1 = "t\<lparr>dense := dense t @ xs\<rparr>"
    note c = add_closed[OF a Cons.prems(2)]
    note dd = fresh_for_distinct[OF f Cons.prems(3,4)]
    have p1: "eps_closed ?p (set (dense ?t1))" by (rule c[THEN conjunct1])
    have p2: "distinct (dense ?t1)" "in_prog ?p (dense ?t1)" using dd by simp_all
    from Cons.IH[OF rest p1 p2, of m] obtain t' where
      r: "run_loop d ips b ?t1 m = Inr (t', m \<or> has_match ?p ips)" and
      s: "set (dense t') = set (dense ?t1) \<union> eps_closure ?p (step_seeds ?p ips b)" and
      o: "eps_closed ?p (set (dense t'))" "distinct (dense t')" "in_prog ?p (dense t')"
         "capacity t' = capacity ?t1"
      by blast
    have "run_loop d (ip # ips) b t m = Inr (t', m \<or> has_match ?p (ip # ips))"
      using lt rg True a r by (simp add: covers_def has_match_def)
    moreover have "set (dense t') = set (dense t) \<union> eps_closure ?p (step_seeds ?p (ip # ips) b)"
    proof -
      have e1: "set (dense ?t1) = set (dense t) \<union> eps_closure ?p {ip + 1}"
        by (rule c[THEN conjunct2])
      have e2: "eps_closure ?p (step_seeds ?p (ip # ips) b) =
                  eps_closure ?p {ip + 1} \<union> eps_closure ?p (step_seeds ?p ips b)"
        using True eps_closure_insert[of ?p "ip + 1" "step_seeds ?p ips b"]
        by (simp only: step_seeds_Cons if_True)
      show ?thesis unfolding s e1 e2 by blast
    qed
    moreover have "capacity t' = capacity t" using o(4) by simp
    ultimately show ?thesis using o(1,2,3) by blast
  next
    case False
    from Cons.IH[OF rest Cons.prems(2,3,4), of "m \<or> op (?p ! ip) = OpMatch"] obtain t' where
      r: "run_loop d ips b t (m \<or> op (?p ! ip) = OpMatch) =
            Inr (t', (m \<or> op (?p ! ip) = OpMatch) \<or> has_match ?p ips)" and
      s: "set (dense t') = set (dense t) \<union> eps_closure ?p (step_seeds ?p ips b)" and
      o: "eps_closed ?p (set (dense t'))" "distinct (dense t')" "in_prog ?p (dense t')"
         "capacity t' = capacity t"
      by blast
    from Cons.IH[OF rest Cons.prems(2,3,4), of True] obtain t2 where
      r2: "run_loop d ips b t True = Inr (t2, True \<or> has_match ?p ips)" and
      s2: "set (dense t2) = set (dense t) \<union> eps_closure ?p (step_seeds ?p ips b)" and
      o2: "eps_closed ?p (set (dense t2))" "distinct (dense t2)" "in_prog ?p (dense t2)"
         "capacity t2 = capacity t"
      by blast
    show ?thesis
    proof (cases "op (?p ! ip)")
      case OpMatch
      then have "run_loop d (ip # ips) b t m = Inr (t2, m \<or> has_match ?p (ip # ips))"
        using lt r2 by (simp add: has_match_def)
      then show ?thesis using s2 o2 False by (simp add: step_seeds_Cons)
    next
      case OpRange
      then have "run_loop d (ip # ips) b t m = Inr (t', m \<or> has_match ?p (ip # ips))"
        using lt r False by (auto simp: has_match_def covers_def)
      then show ?thesis using s o False by (simp add: step_seeds_Cons)
    next
      case OpJmp
      then have "run_loop d (ip # ips) b t m = Inr (t', m \<or> has_match ?p (ip # ips))"
        using lt r False by (auto simp: has_match_def covers_def)
      then show ?thesis using s o False by (simp add: step_seeds_Cons)
    next
      case OpSplit
      then have "run_loop d (ip # ips) b t m = Inr (t', m \<or> has_match ?p (ip # ips))"
        using lt r False by (auto simp: has_match_def covers_def)
      then show ?thesis using s o False by (simp add: step_seeds_Cons)
    qed
  qed
qed

lemma eps_closed_empty [simp]: "eps_closed p {}"
  by (simp add: eps_closed_def)

lemma run_result:
  assumes "targets_in_bounds (insts d)" and "falls_in_bounds (insts d)"
    and "in_prog (insts d) (dense fromSet)"
  shows "\<exists>t'. run d fromSet toSet b = Inr (t', has_match (insts d) (dense fromSet)) \<and>
              set (dense t') = eps_closure (insts d) (step_seeds (insts d) (dense fromSet) b) \<and>
              distinct (dense t') \<and> in_prog (insts d) (dense t') \<and> capacity t' = capacity toSet"
proof -
  have "eps_closed (insts d) (set (dense (Clear toSet)))" "distinct (dense (Clear toSet))"
    "in_prog (insts d) (dense (Clear toSet))" "capacity (Clear toSet) = capacity toSet"
    by (simp_all add: Clear_def in_prog_def)
  with run_loop_result[OF assms(1,2,3), of "Clear toSet" b False] show ?thesis
    by (simp add: run_def Clear_def) blast
qed

text \<open>
  C5.  For a well-formed program, every from-set of program indices and every byte
  \<open>b\<close>: \<open>run\<close> returns \<open>true\<close> exactly when the from-set holds the index of a \<open>Match\<close>
  instruction, and the to-set it leaves holds, whatever it held before, exactly the
  indices reachable over \<open>Jmp\<close> and \<open>Split\<close> edges from some \<open>ip + 1\<close> where \<open>ip\<close> is a
  member of the from-set and a \<open>Range\<close> instruction that covers \<open>b\<close>.
\<close>

theorem run_byte_step:
  assumes "targets_in_bounds (insts d)" and "falls_in_bounds (insts d)"
    and "\<forall>ip \<in> set (dense fromSet). ip < length (insts d)"
  shows "\<exists>toSet1.
           run d fromSet toSet b =
             Inr (toSet1, \<exists>ip \<in> set (dense fromSet). op (insts d ! ip) = OpMatch) \<and>
           set (dense toSet1) =
             (eps_rel (insts d))\<^sup>* ``
               {ip + 1 | ip. ip \<in> set (dense fromSet) \<and> op (insts d ! ip) = OpRange \<and>
                  rangeStart (insts d ! ip) \<le> b \<and> b \<le> rangeEnd (insts d ! ip)}"
proof -
  have ip: "in_prog (insts d) (dense fromSet)"
    using assms(3) by (simp add: in_prog_def list_all_iff)
  from run_result[OF assms(1,2) ip, of toSet b] show ?thesis
    by (auto simp: has_match_def list_ex_iff eps_closure_def step_seeds_def covers_def)
qed

lemma wf_prog_a_or_b:
  "targets_in_bounds (insts (dfa_of prog_a_or_b)) \<and> falls_in_bounds (insts (dfa_of prog_a_or_b))"
  by (simp add: targets_prog_a_or_b)
     (simp add: falls_in_bounds_def dfa_of_def prog_a_or_b_def iSplit_def iRange_def iJmp_def iMatch_def upt_rec)

theorem run_byte_step_witness:
  "targets_in_bounds (insts (dfa_of prog_a_or_b)) \<and> falls_in_bounds (insts (dfa_of prog_a_or_b)) \<and>
   run (dfa_of prog_a_or_b) \<lparr>capacity = 5, dense = [1, 3]\<rparr> \<lparr>capacity = 5, dense = [0, 1, 3]\<rparr> 98
     = Inr (\<lparr>capacity = 5, dense = [4]\<rparr>, False) \<and>
   (eps_rel prog_a_or_b)\<^sup>* `` {ip + 1 | ip. ip \<in> {1, 3} \<and> op (prog_a_or_b ! ip) = OpRange \<and>
      rangeStart (prog_a_or_b ! ip) \<le> 98 \<and> 98 \<le> rangeEnd (prog_a_or_b ! ip)} = {4}"
proof -
  have m: "\<forall>ip \<in> set (dense \<lparr>capacity = 5, dense = [1, 3]\<rparr>). ip < length (insts (dfa_of prog_a_or_b))"
    by (simp add: dfa_of_def prog_a_or_b_def)
  have r: "run (dfa_of prog_a_or_b) \<lparr>capacity = 5, dense = [1, 3]\<rparr> \<lparr>capacity = 5, dense = [0, 1, 3]\<rparr> 98
     = Inr (\<lparr>capacity = 5, dense = [4]\<rparr>, False)"
    by code_simp
  from run_byte_step[OF wf_prog_a_or_b[THEN conjunct1] wf_prog_a_or_b[THEN conjunct2] m,
      of "\<lparr>capacity = 5, dense = [0, 1, 3]\<rparr>" 98]
  show ?thesis using wf_prog_a_or_b r by (auto simp: dfa_of_def)
qed

section \<open>The cache key is injective\<close>

lemma show_uint_not_Nil: "show_uint n \<noteq> []"
  by (subst show_uint.simps) simp

lemma digit_char_inj:
  assumes "char_of (48 + a :: nat) = char_of (48 + b :: nat)" "a < 10" "b < 10"
  shows "a = b"
proof -
  have "(of_char (char_of (48 + a :: nat)) :: nat) = of_char (char_of (48 + b :: nat))"
    using assms(1) by simp
  then have "(48 + a) mod 256 = (48 + b) mod 256" by simp
  with assms(2,3) show ?thesis by simp
qed

lemma digit_char_not_space: "a < 10 \<Longrightarrow> char_of (48 + a :: nat) \<noteq> CHR '' ''"
proof
  assume a: "a < 10" and "char_of (48 + a :: nat) = CHR '' ''"
  then have "(of_char (char_of (48 + a :: nat)) :: nat) = of_char (CHR '' '')" by simp
  then have "(48 + a) mod 256 = 32" by simp
  with a show False by simp
qed

lemma show_uint_no_space: "CHR '' '' \<notin> set (show_uint n)"
proof (induction n rule: show_uint.induct)
  case (1 n)
  show ?case
  proof (cases "n < 10")
    case True
    then show ?thesis using digit_char_not_space[of n] by (subst show_uint.simps) simp
  next
    case False
    have "n mod 10 < 10" by simp
    then show ?thesis using 1 False digit_char_not_space[of "n mod 10"]
      by (subst show_uint.simps) simp
  qed
qed

lemma show_uint_inj: "show_uint n = show_uint m \<Longrightarrow> n = m"
proof (induction n arbitrary: m rule: show_uint.induct)
  case (1 n)
  show ?case
  proof (cases "n < 10")
    case True
    note n = this
    show ?thesis
    proof (cases "m < 10")
      case True
      with n 1(2) show ?thesis
        using digit_char_inj[of n m] by (simp add: show_uint.simps[of n] show_uint.simps[of m])
    next
      case False
      with n 1(2) show ?thesis
        using show_uint_not_Nil[of "m div 10"]
        by (simp add: show_uint.simps[of n] show_uint.simps[of m])
    qed
  next
    case False
    note n = this
    show ?thesis
    proof (cases "m < 10")
      case True
      with n 1(2) show ?thesis
        using show_uint_not_Nil[of "n div 10"]
        by (simp add: show_uint.simps[of n] show_uint.simps[of m])
    next
      case False
      with n 1(2) have a: "show_uint (n div 10) = show_uint (m div 10)"
        and b: "char_of (48 + n mod 10) = char_of (48 + m mod 10)"
        by (simp_all add: show_uint.simps[of n] show_uint.simps[of m])
      have "n div 10 = m div 10" using 1(1)[OF n a] .
      moreover have "n mod 10 = m mod 10" using digit_char_inj[OF b] by simp
      ultimately show ?thesis by (metis div_mult_mod_eq)
    qed
  qed
qed

lemma split_at_separator:
  "c \<notin> set x \<Longrightarrow> c \<notin> set y \<Longrightarrow> x @ c # r = y @ c # r' \<Longrightarrow> x = y \<and> r = r'"
proof (induction x arbitrary: y)
  case Nil
  then show ?case by (cases y) auto
next
  case (Cons a x)
  then show ?case by (cases y) auto
qed

lemma join_space_inj:
  assumes "\<forall>x \<in> set xs. x \<noteq> [] \<and> CHR '' '' \<notin> set x"
    and "\<forall>y \<in> set ys. y \<noteq> [] \<and> CHR '' '' \<notin> set y"
    and "join_space xs = join_space ys"
  shows "xs = ys"
  using assms
proof (induction xs arbitrary: ys rule: join_space.induct)
  case 1
  then show ?case by (cases ys rule: join_space.cases) auto
next
  case (2 x)
  then show ?case by (cases ys rule: join_space.cases) auto
next
  case (3 x x' xs)
  show ?case
  proof (cases ys rule: join_space.cases)
    case 1
    with 3 show ?thesis by simp
  next
    case (2 y)
    with 3 show ?thesis by auto
  next
    case (3 y y' ys')
    from "3.prems" 3 have e: "x @ CHR '' '' # join_space (x' # xs) = y @ CHR '' '' # join_space (y' # ys')"
      by simp
    have "x = y \<and> join_space (x' # xs) = join_space (y' # ys')"
      using "3.prems"(1,2) 3 by (intro split_at_separator[OF _ _ e]) auto
    moreover from this "3.IH"[of "y' # ys'"] "3.prems"(1,2) 3 have "x' # xs = y' # ys'" by auto
    ultimately show ?thesis using 3 by simp
  qed
qed

lemma Sprintf_v_inj: "Sprintf_v xs = Sprintf_v ys \<Longrightarrow> xs = ys"
proof -
  assume "Sprintf_v xs = Sprintf_v ys"
  then have "join_space (map show_uint xs) = join_space (map show_uint ys)"
    by (simp add: Sprintf_v_def)
  then have "map show_uint xs = map show_uint ys"
    by (intro join_space_inj) (auto simp: show_uint_not_Nil show_uint_no_space)
  then show ?thesis
    by (simp add: inj_on_def show_uint_inj list.inj_map_strong)
qed

section \<open>Properties of \<open>cachedState\<close>\<close>

lemma has_match_signature: "has_match p (signature p ips) = has_match p ips"
  by (auto simp: has_match_def signature_def significant_def list_ex_iff)

lemma cachedState_loop_result:
  "in_prog (insts d) ips \<Longrightarrow>
     cachedState_loop d ips acc m =
       Inr (acc @ signature (insts d) ips, m \<or> has_match (insts d) ips)"
proof (induction ips arbitrary: acc m)
  case Nil
  then show ?case by (simp add: signature_def has_match_def)
next
  case (Cons ip ips)
  then have lt: "ip < length (insts d)" and rest: "in_prog (insts d) ips"
    by (simp_all add: in_prog_def)
  show ?case
    using lt Cons.IH[OF rest]
    by (cases "op (insts d ! ip)") (simp_all add: signature_def significant_def has_match_def)
qed

lemma cachedState_loop_in_prog:
  "cachedState_loop d ips acc m = Inr x \<Longrightarrow> in_prog (insts d) ips"
proof (induction ips arbitrary: acc m)
  case Nil
  then show ?case by (simp add: in_prog_def)
next
  case (Cons ip ips)
  then show ?case
    by (cases "op (insts d ! ip)") (auto simp: in_prog_def split: if_splits)
qed

lemma cachedState_intern:
  "in_prog (insts (dfa d)) (dense s) \<Longrightarrow>
     cachedState d s = Inr (intern d (signature (insts (dfa d)) (dense s)))"
  by (simp add: cachedState_def cachedState_loop_result intern_def Let_def has_match_signature
           split: option.splits)

lemma cachedState_Inr:
  assumes "cachedState d s = Inr x"
  shows "in_prog (insts (dfa d)) (dense s) \<and> x = intern d (signature (insts (dfa d)) (dense s))"
proof -
  from assms obtain y where "cachedState_loop (dfa d) (members s) [] False = Inr y"
    by (auto simp: cachedState_def split: sum.splits)
  then have "in_prog (insts (dfa d)) (dense s)"
    using cachedState_loop_in_prog[of "dfa d" "dense s" "[]" False y] by simp
  with assms cachedState_intern[of d s] show ?thesis by simp
qed

lemma signature_in_prog: "in_prog p ips \<Longrightarrow> in_prog p (signature p ips)"
  by (simp add: in_prog_def signature_def list_all_iff)

lemma signature_idem: "signature p (signature p ips) = signature p ips"
  by (simp add: signature_def)

lemma signature_distinct: "distinct ips \<Longrightarrow> distinct (signature p ips)"
  by (simp add: signature_def)

section \<open>A build moves through builder steps\<close>

lemma bld_mark_new [simp]: "bld (mark_new f ns) = bld f"
  by (simp add: mark_new_def split: option.splits)

lemma build_byte_Inr:
  assumes "build_byte f s b = Inr f1"
  shows "\<exists>d1 c1 n1 ns.
           runState (bld f) (cur f) (nxt f) s (of_nat b) = Inr (d1, c1, n1, ns) \<and>
           f1 = mark_new (f\<lparr>bld := d1, cur := c1, nxt := n1\<rparr>) ns \<and>
           length (states (dfa d1)) \<le> StateLimit"
  using assms
  by (auto simp: build_byte_def Let_def split: sum.splits if_splits)

lemma build_byte_steps:
  assumes "build_byte f s b = Inr f1"
  shows "builder_steps (bld f) (bld f1)"
proof -
  from build_byte_Inr[OF assms] obtain d1 c1 n1 ns where
    r: "runState (bld f) (cur f) (nxt f) s (of_nat b) = Inr (d1, c1, n1, ns)" and
    f1: "f1 = mark_new (f\<lparr>bld := d1, cur := c1, nxt := n1\<rparr>) ns" by blast
  from steps_runState[OF steps_refl r] f1 show ?thesis by simp
qed

lemma builder_steps_trans:
  "builder_steps d1 d2 \<Longrightarrow> builder_steps d0 d1 \<Longrightarrow> builder_steps d0 d2"
  by (induction rule: builder_steps.induct)
     (auto intro: steps_cachedState steps_runState)

lemma build_bytes_steps:
  "build_bytes f s bs = Inr f1 \<Longrightarrow> builder_steps (bld f) (bld f1)"
proof (induction bs arbitrary: f)
  case Nil
  then show ?case by (simp add: steps_refl)
next
  case (Cons b bs)
  then obtain f0 where a: "build_byte f s b = Inr f0" and r: "build_bytes f0 s bs = Inr f1"
    by (auto split: sum.splits)
  from builder_steps_trans[OF Cons.IH[OF r] build_byte_steps[OF a]] show ?case .
qed

lemma build_loop_steps:
  "build_loop f so = Inr dd \<Longrightarrow> \<exists>d1. builder_steps (bld f) d1 \<and> dfa d1 = dd"
proof (induction f so rule: build_loop.induct)
  case (1 f)
  then show ?case by (auto intro: steps_refl)
next
  case (2 f s)
  from 2(2) obtain f1 where a: "build_bytes f s [0..<256] = Inr f1"
    by (auto split: sum.splits)
  obtain stk s1 where p: "Pop (stack f1) = (stk, s1)" by (cases "Pop (stack f1)")
  from 2(2) a p have r: "build_loop (f1\<lparr>stack := stk\<rparr>) s1 = Inr dd" by simp
  from 2(1)[OF a p[symmetric] r] obtain d1 where
    "builder_steps (bld f1) d1" "dfa d1 = dd" by auto
  with builder_steps_trans[OF _ build_bytes_steps[OF a]] show ?case by blast
qed

lemma build_steps:
  assumes "build d = Inr dd"
  shows "\<exists>d1. builder_steps d d1 \<and> dfa d1 = dd"
proof -
  from assms obtain c1 d1 s0 stk s where
    cs: "cachedState d c1 = Inr (d1, s0)" and
    bl: "build_loop \<lparr>bld = d1, cur = c1, nxt = newSparseSet (length (insts (dfa d))),
                     stack = stk, seen = {}\<rparr> s = Inr dd"
    by (auto simp: build_def Let_def split: sum.splits prod.splits)
  from build_loop_steps[OF bl] obtain d2 where "builder_steps d1 d2" "dfa d2 = dd" by auto
  with builder_steps_trans[OF _ steps_cachedState[OF steps_refl cs]] show ?thesis by auto
qed


section \<open>The invariant of the states is kept\<close>

lemma builder_inv_new: "builder_inv (newDfaBuilder p)"
  by (simp add: builder_inv_def dfa_inv_def newDfaBuilder_def)

lemma signature_members:
  "in_prog p ips \<Longrightarrow> ip \<in> set (signature p ips) \<Longrightarrow>
     ip < length p \<and> (op (p ! ip) = OpRange \<or> op (p ! ip) = OpMatch)"
  by (auto simp: signature_def significant_def in_prog_def list_all_iff)

lemma intern_inv:
  assumes "builder_inv d" and "in_prog (insts (dfa d)) ips"
    and "intern d (signature (insts (dfa d)) ips) = (d1, r)"
  shows "builder_inv d1 \<and> insts (dfa d1) = insts (dfa d) \<and>
         length (states (dfa d)) \<le> length (states (dfa d1)) \<and>
         (\<forall>v. r = Some v \<longrightarrow> v < length (states (dfa d1)))"
proof -
  let ?sg = "signature (insts (dfa d)) ips"
  show ?thesis
  proof (cases "?sg = []")
    case True
    with assms show ?thesis by (simp add: intern_def)
  next
    case False
    note ne = this
    show ?thesis
    proof (cases "cache d (Sprintf_v ?sg)")
      case (Some v)
      with assms ne show ?thesis by (auto simp: intern_def builder_inv_def)
    next
      case None
      let ?st = "\<lparr>state_insts = ?sg, state_next = replicate 256 None,
                  state_match = has_match (insts (dfa d)) ?sg\<rparr>"
      from None ne assms(3) have d1: "d1 = d\<lparr>dfa := (dfa d)\<lparr>states := states (dfa d) @ [?st]\<rparr>,
               cache := (cache d)(Sprintf_v ?sg \<mapsto> length (states (dfa d)))\<rparr>"
        and r: "r = Some (length (states (dfa d)))"
        by (auto simp: intern_def)
      have "dfa_inv (dfa d1)"
        unfolding dfa_inv_def
      proof
        fix st assume "st \<in> set (states (dfa d1))"
        then consider "st \<in> set (states (dfa d))" | "st = ?st" by (auto simp: d1)
        then show "(\<forall>ip \<in> set (state_insts st).
                      ip < length (insts (dfa d1)) \<and>
                      (op (insts (dfa d1) ! ip) = OpRange \<or> op (insts (dfa d1) ! ip) = OpMatch)) \<and>
                   length (state_next st) = 256 \<and>
                   (\<forall>j. Some j \<in> set (state_next st) \<longrightarrow> j < length (states (dfa d1)))"
        proof cases
          case 1
          with assms(1) show ?thesis
            by (fastforce simp: builder_inv_def dfa_inv_def d1)
        next
          case 2
          then show ?thesis using signature_members[OF assms(2)] by (auto simp: d1)
        qed
      qed
      moreover have "\<forall>k v. cache d1 k = Some v \<longrightarrow> v < length (states (dfa d1))"
      proof (intro allI impI)
        fix k v assume "cache d1 k = Some v"
        then have "v = length (states (dfa d)) \<or> cache d k = Some v"
          by (auto simp: d1 split: if_splits)
        then show "v < length (states (dfa d1))"
          using assms(1) by (auto simp: builder_inv_def d1 less_Suc_eq)
      qed
      ultimately show ?thesis using r by (simp add: builder_inv_def d1)
    qed
  qed
qed

lemma cachedState_inv:
  assumes "builder_inv d" and "cachedState d s = Inr (d1, r)"
  shows "builder_inv d1 \<and> insts (dfa d1) = insts (dfa d) \<and>
         length (states (dfa d)) \<le> length (states (dfa d1)) \<and>
         (\<forall>v. r = Some v \<longrightarrow> v < length (states (dfa d1)))"
proof -
  from cachedState_Inr[OF assms(2)] have
    ip: "in_prog (insts (dfa d)) (dense s)" and
    i: "intern d (signature (insts (dfa d)) (dense s)) = (d1, r)" by simp_all
  from intern_inv[OF assms(1) ip i] show ?thesis .
qed

lemma runState_Inr:
  assumes "runState d c n st b = Inr (d2, c2, n2, r)"
  shows "st < length (states (dfa d)) \<and>
         c2 = foldl Add (Clear c) (state_insts (states (dfa d) ! st)) \<and>
         (\<exists>(m::bool) d1. run (dfa d) c2 n b = Inr (n2, m) \<and> cachedState d n2 = Inr (d1, r) \<and>
                 unat b < length (state_next (states (dfa d1) ! st)) \<and>
                 d2 = d1\<lparr>dfa := (dfa d1)\<lparr>states := (states (dfa d1))
                        [st := (states (dfa d1) ! st)
                           \<lparr>state_next := (state_next (states (dfa d1) ! st))[unat b := r]\<rparr>]\<rparr>\<rparr>)"
  using assms
  by (auto simp: runState_def Let_def split: if_splits sum.splits prod.splits)

lemma runState_inv:
  assumes "builder_inv d" and "runState d c n st b = Inr (d2, c2, n2, r)"
  shows "builder_inv d2"
proof -
  from runState_Inr[OF assms(2)] obtain d1 where
    lt: "st < length (states (dfa d))" and
    cs: "cachedState d n2 = Inr (d1, r)" and
    d2: "d2 = d1\<lparr>dfa := (dfa d1)\<lparr>states := (states (dfa d1))
                        [st := (states (dfa d1) ! st)
                           \<lparr>state_next := (state_next (states (dfa d1) ! st))[unat b := r]\<rparr>]\<rparr>\<rparr>"
    by blast
  note i1 = cachedState_inv[OF assms(1) cs]
  let ?sts = "states (dfa d1)"
  let ?old = "?sts ! st"
  let ?new = "?old\<lparr>state_next := (state_next ?old)[unat b := r]\<rparr>"
  have lt1: "st < length ?sts" using lt i1 by simp
  have old: "?old \<in> set ?sts" using lt1 by simp
  have inv1: "dfa_inv (dfa d1)" using i1 by (simp add: builder_inv_def)
  have "dfa_inv (dfa d2)"
    unfolding dfa_inv_def
  proof
    fix x assume "x \<in> set (states (dfa d2))"
    then have "x \<in> insert ?new (set ?sts)"
      using set_update_subset_insert[of ?sts st ?new] by (auto simp: d2)
    then consider "x \<in> set ?sts" | "x = ?new" by auto
    then show "(\<forall>ip \<in> set (state_insts x).
                  ip < length (insts (dfa d2)) \<and>
                  (op (insts (dfa d2) ! ip) = OpRange \<or> op (insts (dfa d2) ! ip) = OpMatch)) \<and>
               length (state_next x) = 256 \<and>
               (\<forall>j. Some j \<in> set (state_next x) \<longrightarrow> j < length (states (dfa d2)))"
    proof cases
      case 1
      with inv1 show ?thesis by (fastforce simp: dfa_inv_def d2)
    next
      case 2
      have a: "\<forall>ip \<in> set (state_insts ?old).
                 ip < length (insts (dfa d1)) \<and>
                 (op (insts (dfa d1) ! ip) = OpRange \<or> op (insts (dfa d1) ! ip) = OpMatch)"
        and l: "length (state_next ?old) = 256"
        and e: "\<forall>j. Some j \<in> set (state_next ?old) \<longrightarrow> j < length ?sts"
        using inv1 old unfolding dfa_inv_def by blast+
      have "\<forall>j. Some j \<in> set ((state_next ?old)[unat b := r]) \<longrightarrow> j < length ?sts"
      proof (intro allI impI)
        fix j assume "Some j \<in> set ((state_next ?old)[unat b := r])"
        then have "Some j \<in> insert r (set (state_next ?old))"
          using set_update_subset_insert[of "state_next ?old" "unat b" r] by auto
        then show "j < length ?sts" using e i1 by auto
      qed
      with a l 2 show ?thesis by (simp add: d2)
    qed
  qed
  moreover have "\<forall>k v. cache d2 k = Some v \<longrightarrow> v < length (states (dfa d2))"
    using i1 by (simp add: builder_inv_def d2)
  ultimately show ?thesis by (simp add: builder_inv_def)
qed

lemma builder_steps_inv:
  "builder_steps d d1 \<Longrightarrow> builder_inv d \<Longrightarrow> builder_inv d1"
proof (induction rule: builder_steps.induct)
  case (steps_refl d)
  then show ?case .
next
  case (steps_cachedState d d1 s d2 r)
  then show ?case using cachedState_inv[of d1 s d2 r] by simp
next
  case (steps_runState d d1 c n st b d2 c2 n2 r)
  then show ?case using runState_inv[of d1 c n st b d2 c2 n2 r] by simp
qed

text \<open>
  C10.  In every builder that \<open>build\<close> can reach from the new builder of a program by
  its two mutating operations, and in every automaton that \<open>build\<close> returns, every
  state's signature lists indices of \<open>Range\<close> or \<open>Match\<close> instructions of the program
  only, its transition table has 256 slots, and every slot that is not reject
  holds an index below the current number of states.
\<close>

theorem build_keeps_dfa_inv:
  "(builder_steps (newDfaBuilder p) d \<longrightarrow> dfa_inv (dfa d)) \<and>
   (build (newDfaBuilder p) = Inr dd \<longrightarrow> dfa_inv dd)"
proof (intro conjI impI)
  assume "builder_steps (newDfaBuilder p) d"
  from builder_steps_inv[OF this builder_inv_new] show "dfa_inv (dfa d)"
    by (simp add: builder_inv_def)
next
  assume "build (newDfaBuilder p) = Inr dd"
  from build_steps[OF this] obtain d1 where
    "builder_steps (newDfaBuilder p) d1" "dfa d1 = dd" by blast
  with builder_steps_inv[OF _ builder_inv_new] show "dfa_inv dd"
    by (auto simp: builder_inv_def)
qed

section \<open>The closure and the byte step depend on the program and the members only\<close>

lemma add_depends:
  "insts d2 = insts d \<Longrightarrow> dense s2 = dense s \<Longrightarrow>
     add d2 s2 ip = map_sum id (\<lambda>s'. s2\<lparr>dense := dense s'\<rparr>) (add d s ip)"
proof (induction d s ip arbitrary: s2 rule: add.induct)
  case (1 d s ip)
  have c: "Contains s2 ip = Contains s ip" using 1(5) by (simp add: Contains_def)
  show ?case
  proof (cases "Contains s ip")
    case True
    then show ?thesis using c 1(5)[symmetric] by (simp add: add_Contains)
  next
    case False
    note nc = this
    then have nc2: "\<not> Contains s2 ip" using c by simp
    have a2: "Add s2 ip = s2\<lparr>dense := dense s @ [ip]\<rparr>" using nc2 1(5) by (simp add: Add_def)
    have a1: "dense (Add s ip) = dense s @ [ip]" using nc by (simp add: Add_def)
    have da: "dense (Add s2 ip) = dense (Add s ip)" by (simp add: a1 a2)
    show ?thesis
    proof (cases "ip < length (insts d)")
      case False
      then show ?thesis using nc nc2 1(4) by (simp add: add_out_of_range)
    next
      case True
      note lt = this
      then have lt2: "ip < length (insts d2)" and nle: "\<not> length (insts d) \<le> ip"
        using 1(4) by simp_all
      show ?thesis
      proof (cases "op (insts d ! ip)")
        case OpJmp
        then have o2: "op (insts d2 ! ip) = OpJmp" using 1(4) by simp
        show ?thesis
          using 1(1)[OF nc refl nle OpJmp 1(4) da]
          by (simp add: add_Jmp[OF nc lt OpJmp] add_Jmp[OF nc2 lt2 o2] 1(4) a2 sum.map_comp
                   cong: sum.map_cong)
      next
        case OpSplit
        then have o2: "op (insts d2 ! ip) = OpSplit" using 1(4) by simp
        note iha = 1(2)[OF nc refl nle OpSplit 1(4) da]
        show ?thesis
        proof (cases "add d (Add s ip) (splitA (insts d ! ip))")
          case (Inl e)
          then show ?thesis using iha
            by (simp add: add_Split[OF nc lt OpSplit] add_Split[OF nc2 lt2 o2] 1(4))
        next
          case (Inr sa)
          have e: "add d2 (Add s2 ip) (splitA (insts d ! ip)) = Inr ((Add s2 ip)\<lparr>dense := dense sa\<rparr>)"
            using iha Inr by simp
          have "dense ((Add s2 ip)\<lparr>dense := dense sa\<rparr>) = dense sa" by simp
          note ihb = 1(3)[OF nc refl nle OpSplit Inr 1(4) this]
          show ?thesis
            using ihb e Inr
            by (simp add: add_Split[OF nc lt OpSplit] add_Split[OF nc2 lt2 o2] 1(4) a2 sum.map_comp
                     cong: sum.map_cong)
        qed
      next
        case OpMatch
        then have o2: "op (insts d2 ! ip) = OpMatch" using 1(4) by simp
        show ?thesis
          by (simp add: add_Match[OF nc lt OpMatch] add_Match[OF nc2 lt2 o2] a2 a1)
      next
        case OpRange
        then have o2: "op (insts d2 ! ip) = OpRange" using 1(4) by simp
        show ?thesis
          by (simp add: add_Range[OF nc lt OpRange] add_Range[OF nc2 lt2 o2] a2 a1)
      qed
    qed
  qed
qed

lemma run_loop_depends:
  "insts d2 = insts d \<Longrightarrow> dense t2 = dense t \<Longrightarrow>
     run_loop d2 ips b t2 m =
       map_sum id (\<lambda>(t', m'). (t2\<lparr>dense := dense t'\<rparr>, m')) (run_loop d ips b t m)"
proof (induction ips arbitrary: t t2 m)
  case Nil
  then show ?case using Nil(2)[symmetric] by simp
next
  case (Cons ip ips)
  show ?case
  proof (cases "covers (insts d ! ip) b \<and> ip < length (insts d)")
    case True
    then have lt: "ip < length (insts d)" and rg: "op (insts d ! ip) = OpRange"
      and cv: "rangeStart (insts d ! ip) \<le> b \<and> b \<le> rangeEnd (insts d ! ip)"
      by (simp_all add: covers_def)
    note a = add_depends[OF Cons.prems, of "ip + 1"]
    show ?thesis
    proof (cases "add d t (ip + 1)")
      case (Inl e)
      then show ?thesis using a lt rg cv Cons.prems(1) by simp
    next
      case (Inr t1)
      then have a2: "add d2 t2 (ip + 1) = Inr (t2\<lparr>dense := dense t1\<rparr>)" using a by simp
      have "dense (t2\<lparr>dense := dense t1\<rparr>) = dense t1" by simp
      from Cons.IH[OF Cons.prems(1) this, of m] show ?thesis
        using Inr a2 lt rg cv Cons.prems(1) by (simp cong: sum.map_cong)
    qed
  next
    case False
    show ?thesis
    proof (cases "ip < length (insts d)")
      case False
      then show ?thesis using Cons.prems(1) by simp
    next
      case True
      with False have nc: "\<not> covers (insts d ! ip) b" by simp
      show ?thesis
        using True nc Cons.IH[OF Cons.prems, of m] Cons.IH[OF Cons.prems, of True] Cons.prems(1)
        by (cases "op (insts d ! ip)") (auto simp: covers_def)
    qed
  qed
qed

lemma run_depends:
  "insts d2 = insts d \<Longrightarrow> dense f2 = dense f1 \<Longrightarrow>
     run d2 f2 t2 b = map_sum id (\<lambda>(t', m'). (t2\<lparr>dense := dense t'\<rparr>, m')) (run d f1 t1 b)"
  using run_loop_depends[of d2 d "Clear t2" "Clear t1" "dense f1" b False]
  by (simp add: run_def Clear_def cong: sum.map_cong)

section \<open>Reachable signatures are well-formed and finitely many\<close>

lemma insts_dfa_of [simp]: "insts (dfa_of p) = p"
  by (simp add: dfa_of_def)

lemma start_sig_ok:
  assumes "wf_prog p" and "start_sig p \<noteq> []"
  shows "sig_ok p (start_sig p)"
proof -
  have t: "targets_in_bounds (insts (dfa_of p))" and l: "0 < length (insts (dfa_of p))"
    using assms(1) by (simp_all add: wf_prog_def)
  from add_appends[OF t l, of "newSparseSet (length p)"] obtain xs where
    a: "add (dfa_of p) (newSparseSet (length p)) 0 = Inr ((newSparseSet (length p))\<lparr>dense := xs\<rparr>)"
    and f: "fresh_for (dfa_of p) (newSparseSet (length p)) xs"
    by (auto simp: newSparseSet_def)
  have s: "start_sig p = signature p xs" using a by (simp add: start_sig_def)
  have "in_prog p xs" "distinct xs" using f by (simp_all add: fresh_for_def in_prog_def list_all_iff)
  then show ?thesis using assms(2) unfolding s sig_ok_def
    by (simp add: signature_in_prog signature_idem signature_distinct)
qed

lemma sig_step_ok:
  assumes "wf_prog p" and "in_prog p sg" and "sig_step p sg b \<noteq> []"
  shows "sig_ok p (sig_step p sg b)"
proof -
  have t: "targets_in_bounds (insts (dfa_of p))" and l: "falls_in_bounds (insts (dfa_of p))"
    using assms(1) by (simp_all add: wf_prog_def)
  have i: "in_prog (insts (dfa_of p)) (dense \<lparr>capacity = length p, dense = sg\<rparr>)"
    using assms(2) by simp
  from run_result[OF t l i, of "newSparseSet (length p)" b] obtain t' where
    r: "run (dfa_of p) \<lparr>capacity = length p, dense = sg\<rparr> (newSparseSet (length p)) b =
          Inr (t', has_match p sg)" and
    d: "distinct (dense t')" "in_prog p (dense t')" by auto
  have s: "sig_step p sg b = signature p (dense t')" using r by (simp add: sig_step_def)
  show ?thesis using assms(3) d unfolding s sig_ok_def
    by (simp add: signature_in_prog signature_idem signature_distinct)
qed

lemma reach_sigs_ok:
  assumes "wf_prog p"
  shows "sg \<in> reach_sigs p \<Longrightarrow> sig_ok p sg"
proof (induction rule: reach_sigs.induct)
  case reach_start
  then show ?case by (rule start_sig_ok[OF assms])
next
  case (reach_step sg b)
  from reach_step.IH have "in_prog p sg" by (simp add: sig_ok_def)
  from sig_step_ok[OF assms this reach_step.hyps(2)] show ?case .
qed

lemma finite_reach_sigs:
  assumes "wf_prog p"
  shows "finite (reach_sigs p)"
proof -
  have "reach_sigs p \<subseteq> {xs. set xs \<subseteq> {..<length p} \<and> length xs \<le> length p}"
  proof
    fix sg assume "sg \<in> reach_sigs p"
    from reach_sigs_ok[OF assms this] have i: "set sg \<subseteq> {..<length p}" and d: "distinct sg"
      by (auto simp: sig_ok_def in_prog_def list_all_iff)
    have "length sg = card (set sg)" using d by (simp add: distinct_card)
    also have "\<dots> \<le> card {..<length p}" using i by (intro card_mono) auto
    finally show "sg \<in> {xs. set xs \<subseteq> {..<length p} \<and> length xs \<le> length p}"
      using i by simp
  qed
  moreover have "finite {xs. set xs \<subseteq> {..<length p} \<and> length xs \<le> length p}"
    by (rule finite_lists_length_le) simp
  ultimately show ?thesis by (rule finite_subset)
qed

section \<open>The invariant of the cache is kept\<close>

lemma grows_refl [simp]: "grows sts sts"
  by (simp add: grows_def)

lemma grows_trans: "grows a b \<Longrightarrow> grows b c \<Longrightarrow> grows a c"
  by (auto simp: grows_def)

lemma target_ok_grows: "target_ok sts sg r \<Longrightarrow> grows sts sts1 \<Longrightarrow> target_ok sts1 sg r"
  by (auto simp: target_ok_def grows_def split: option.splits)

lemma cache_inv_distinct:
  assumes "cache_inv d"
  shows "distinct (map state_insts (states (dfa d)))"
proof -
  let ?sts = "states (dfa d)"
  have "\<forall>i < length ?sts. \<forall>j < length ?sts. i \<noteq> j \<longrightarrow> state_insts (?sts ! i) \<noteq> state_insts (?sts ! j)"
  proof (intro allI impI notI)
    fix i j assume "i < length ?sts" "j < length ?sts" "i \<noteq> j"
      and e: "state_insts (?sts ! i) = state_insts (?sts ! j)"
    have a: "\<forall>i < length ?sts. cache d (Sprintf_v (state_insts (?sts ! i))) = Some i"
      using assms by (simp add: cache_inv_def)
    have "cache d (Sprintf_v (state_insts (?sts ! i))) = Some i"
      using a \<open>i < length ?sts\<close> by blast
    moreover have "cache d (Sprintf_v (state_insts (?sts ! j))) = Some j"
      using a \<open>j < length ?sts\<close> by blast
    ultimately show False using e \<open>i \<noteq> j\<close> by simp
  qed
  then show ?thesis by (simp add: distinct_conv_nth)
qed

lemma intern_cache:
  assumes cinv: "cache_inv d" and i: "intern d sg = (d1, r)"
  shows "cache_inv d1 \<and> grows (states (dfa d)) (states (dfa d1)) \<and>
         insts (dfa d1) = insts (dfa d) \<and> target_ok (states (dfa d1)) sg r \<and>
         (sg = [] \<longrightarrow> r = None)"
proof -
  let ?sts = "states (dfa d)"
  have ca: "\<And>i. i < length ?sts \<Longrightarrow> cache d (Sprintf_v (state_insts (?sts ! i))) = Some i"
    and cb: "\<And>k v. cache d k = Some v \<Longrightarrow>
               v < length ?sts \<and> k = Sprintf_v (state_insts (?sts ! v))"
    using cinv unfolding cache_inv_def by blast+
  show ?thesis
  proof (cases "sg = []")
    case True
    with i have "d1 = d" "r = None" by (simp_all add: intern_def)
    with True cinv show ?thesis by (simp add: target_ok_def)
  next
    case False
    note ne = this
    show ?thesis
    proof (cases "cache d (Sprintf_v sg)")
      case (Some v)
      with ne i have e: "d1 = d" "r = Some v" by (simp_all add: intern_def)
      from cb[OF Some] have "v < length ?sts" "Sprintf_v sg = Sprintf_v (state_insts (?sts ! v))"
        by simp_all
      then have "target_ok ?sts sg (Some v)"
        using Sprintf_v_inj[of sg "state_insts (?sts ! v)"] by (simp add: target_ok_def)
      with e cinv ne show ?thesis by simp
    next
      case None
      let ?st = "\<lparr>state_insts = sg, state_next = replicate 256 None,
                  state_match = has_match (insts (dfa d)) sg\<rparr>"
      from None ne i have d1: "d1 = d\<lparr>dfa := (dfa d)\<lparr>states := ?sts @ [?st]\<rparr>,
               cache := (cache d)(Sprintf_v sg \<mapsto> length ?sts)\<rparr>"
        and r: "r = Some (length ?sts)"
        by (auto simp: intern_def)
      have fresh: "\<And>i. i < length ?sts \<Longrightarrow> Sprintf_v (state_insts (?sts ! i)) \<noteq> Sprintf_v sg"
        using ca None by fastforce
      have c1a: "\<forall>i < length (states (dfa d1)).
                   cache d1 (Sprintf_v (state_insts (states (dfa d1) ! i))) = Some i"
      proof (intro allI impI)
        fix i assume "i < length (states (dfa d1))"
        then have "i < length ?sts \<or> i = length ?sts" by (auto simp: d1)
        then show "cache d1 (Sprintf_v (state_insts (states (dfa d1) ! i))) = Some i"
        proof
          assume l: "i < length ?sts"
          then show ?thesis using ca[OF l] fresh[OF l] by (simp add: d1 nth_append)
        next
          assume "i = length ?sts"
          then show ?thesis by (simp add: d1)
        qed
      qed
      have c1b: "\<forall>k v. cache d1 k = Some v \<longrightarrow>
                   v < length (states (dfa d1)) \<and>
                   k = Sprintf_v (state_insts (states (dfa d1) ! v))"
      proof (intro allI impI)
        fix k v assume "cache d1 k = Some v"
        then have "k = Sprintf_v sg \<and> v = length ?sts \<or> cache d k = Some v"
          by (auto simp: d1 split: if_splits)
        then show "v < length (states (dfa d1)) \<and>
                   k = Sprintf_v (state_insts (states (dfa d1) ! v))"
        proof
          assume "k = Sprintf_v sg \<and> v = length ?sts"
          then show ?thesis by (simp add: d1)
        next
          assume "cache d k = Some v"
          from cb[OF this] have "v < length ?sts" "k = Sprintf_v (state_insts (?sts ! v))"
            by simp_all
          then show ?thesis by (simp add: d1 nth_append)
        qed
      qed
      have c1: "cache_inv d1" unfolding cache_inv_def using c1a c1b by (rule conjI)
      moreover have "grows ?sts (states (dfa d1))" by (simp add: grows_def d1 nth_append)
      moreover have "target_ok (states (dfa d1)) sg r" by (simp add: target_ok_def d1 r)
      ultimately show ?thesis using ne by (simp add: d1)
    qed
  qed
qed

lemma intern_strong:
  assumes inv: "strong_inv p d" and ok: "sg = [] \<or> sg \<in> reach_sigs p"
    and sgn: "in_prog p ips" "signature p ips = sg"
    and i: "intern d sg = (d1, r)"
  shows "strong_inv p d1 \<and> target_ok (states (dfa d1)) sg r \<and>
         (d1 = d \<or>
          (\<exists>st. states (dfa d1) = states (dfa d) @ [st] \<and> r = Some (length (states (dfa d)))))"
proof -
  let ?sts = "states (dfa d)"
  let ?st = "\<lparr>state_insts = sg, state_next = replicate 256 None,
              state_match = has_match (insts (dfa d)) sg\<rparr>"
  have p: "insts (dfa d) = p" and binv: "builder_inv d" and cinv: "cache_inv d"
    and sok: "\<forall>st \<in> set ?sts. state_ok p st"
    using inv by (simp_all add: strong_inv_def)
  have i2: "intern d (signature (insts (dfa d)) ips) = (d1, r)" using i sgn p by simp
  have ip: "in_prog (insts (dfa d)) ips" using sgn p by simp
  from intern_inv[OF binv ip i2] have b1: "builder_inv d1" and p1: "insts (dfa d1) = p"
    using p by simp_all
  from intern_cache[OF cinv i] have c1: "cache_inv d1"
    and tg: "target_ok (states (dfa d1)) sg r" by simp_all
  have sh: "d1 = d \<or> (sg \<noteq> [] \<and> states (dfa d1) = ?sts @ [?st] \<and> r = Some (length ?sts))"
    using i by (auto simp: intern_def split: if_splits option.splits)
  have s1: "\<forall>st \<in> set (states (dfa d1)). state_ok p st"
    using sh
  proof
    assume "d1 = d"
    with sok show ?thesis by simp
  next
    assume a: "sg \<noteq> [] \<and> states (dfa d1) = ?sts @ [?st] \<and> r = Some (length ?sts)"
    with ok have "state_ok p ?st" by (simp add: state_ok_def p)
    with a sok show ?thesis by auto
  qed
  have "strong_inv p d1" using b1 c1 s1 p1 by (simp add: strong_inv_def)
  with tg sh show ?thesis by blast
qed

section \<open>One transition under the invariant\<close>

lemma foldl_Add_fresh:
  "distinct (dense s @ ips) \<Longrightarrow> foldl Add s ips = s\<lparr>dense := dense s @ ips\<rparr>"
proof (induction ips arbitrary: s)
  case Nil
  then show ?case by simp
next
  case (Cons ip ips)
  then have a: "Add s ip = s\<lparr>dense := dense s @ [ip]\<rparr>" by (simp add: Add_def Contains_def)
  have "distinct (dense (Add s ip) @ ips)" using Cons.prems by (simp add: a)
  from Cons.IH[OF this] show ?case by (simp add: a)
qed

lemma unat_byte_less: "unat (b :: byte) < 256"
  using unsigned_less[of b, where 'a = nat] by simp

lemma runState_strong:
  assumes wf: "wf_prog p" and inv: "strong_inv p d" and lt: "st < length (states (dfa d))"
  shows "\<exists>d2 c2 n2 r.
           runState d c n st b = Inr (d2, c2, n2, r) \<and> strong_inv p d2 \<and>
           slot_written (states (dfa d)) (states (dfa d2)) st (unat b) r \<and>
           target_ok (states (dfa d2)) (sig_step p (state_insts (states (dfa d) ! st)) b) r"
proof -
  let ?sts = "states (dfa d)"
  let ?sg = "state_insts (?sts ! st)"
  have p: "insts (dfa d) = p" and binv: "builder_inv d"
    and sok: "\<forall>x \<in> set ?sts. state_ok p x"
    using inv by (simp_all add: strong_inv_def)
  have "?sts ! st \<in> set ?sts" using lt by simp
  with sok have rs: "?sg \<in> reach_sigs p" by (simp add: state_ok_def)
  from reach_sigs_ok[OF wf rs] have sgi: "in_prog p ?sg" and sgd: "distinct ?sg"
    by (simp_all add: sig_ok_def)
  define c2 where "c2 = foldl Add (Clear c) ?sg"
  have c2: "dense c2 = ?sg"
    unfolding c2_def using foldl_Add_fresh[of "Clear c" ?sg] sgd by (simp add: Clear_def)
  \<comment> \<open>the byte step, on the canonical sets and on the scratch sets\<close>
  have t: "targets_in_bounds (insts (dfa_of p))" and f: "falls_in_bounds (insts (dfa_of p))"
    using wf by (simp_all add: wf_prog_def)
  have i0: "in_prog (insts (dfa_of p)) (dense \<lparr>capacity = length p, dense = ?sg\<rparr>)"
    using sgi by simp
  from run_result[OF t f i0, of "newSparseSet (length p)" b] obtain tc where
    rc: "run (dfa_of p) \<lparr>capacity = length p, dense = ?sg\<rparr> (newSparseSet (length p)) b =
           Inr (tc, has_match p ?sg)" and
    tci: "in_prog p (dense tc)"
    by auto
  define sg2 where "sg2 = sig_step p ?sg b"
  have sg2: "sg2 = signature p (dense tc)" using rc by (simp add: sg2_def sig_step_def)
  define n2 where "n2 = n\<lparr>dense := dense tc\<rparr>"
  have "insts (dfa d) = insts (dfa_of p)" using p by simp
  moreover have "dense c2 = dense \<lparr>capacity = length p, dense = ?sg\<rparr>" using c2 by simp
  ultimately have ra: "run (dfa d) c2 n b = Inr (n2, has_match p ?sg)"
    using run_depends[of "dfa d" "dfa_of p" c2 "\<lparr>capacity = length p, dense = ?sg\<rparr>" n b
            "newSparseSet (length p)"] rc
    by (simp add: n2_def)
  \<comment> \<open>interning the to-set\<close>
  have "in_prog (insts (dfa d)) (dense n2)" using tci p by (simp add: n2_def)
  from cachedState_intern[OF this] have
    cs: "cachedState d n2 = Inr (intern d sg2)" by (simp add: p n2_def sg2)
  obtain d1 r where i: "intern d sg2 = (d1, r)" by (cases "intern d sg2")
  have ok: "sg2 = [] \<or> sg2 \<in> reach_sigs p"
    using reach_step[OF rs, of b] by (auto simp: sg2_def)
  from intern_strong[OF inv ok tci sg2[symmetric] i] have
    inv1: "strong_inv p d1" and tg1: "target_ok (states (dfa d1)) sg2 r" and
    sh: "d1 = d \<or> (\<exists>x. states (dfa d1) = ?sts @ [x] \<and> r = Some (length ?sts))"
    by blast+
  let ?sts1 = "states (dfa d1)"
  have len1: "length ?sts \<le> length ?sts1" "length ?sts1 \<le> Suc (length ?sts)"
    and pre1: "\<forall>i < length ?sts. ?sts1 ! i = ?sts ! i"
    and new1: "\<forall>i. length ?sts \<le> i \<and> i < length ?sts1 \<longrightarrow> r = Some i"
    using sh by (auto simp: nth_append)
  have lt1: "st < length ?sts1" using lt len1 by simp
  have binv1: "builder_inv d1" and p1: "insts (dfa d1) = p"
    and cinv1: "cache_inv d1" and sok1: "\<forall>x \<in> set ?sts1. state_ok p x"
    using inv1 by (simp_all add: strong_inv_def)
  have "?sts1 ! st \<in> set ?sts1" using lt1 by simp
  with binv1 have l256: "length (state_next (?sts1 ! st)) = 256"
    unfolding builder_inv_def dfa_inv_def by blast
  have nb: "\<not> length (state_next (?sts1 ! st)) \<le> unat b"
    using l256 unat_byte_less[of b] by simp
  define new where "new = (?sts1 ! st)\<lparr>state_next := (state_next (?sts1 ! st))[unat b := r]\<rparr>"
  define d2 where "d2 = d1\<lparr>dfa := (dfa d1)\<lparr>states := ?sts1[st := new]\<rparr>\<rparr>"
  have rs2: "runState d c n st b = Inr (d2, c2, n2, r)"
    using lt ra cs i nb
    by (simp add: runState_def Let_def c2_def[symmetric] d2_def new_def)
  let ?sts2 = "states (dfa d2)"
  have s2: "?sts2 = ?sts1[st := new]" by (simp add: d2_def)
  have sig2: "\<forall>i < length ?sts1. state_insts (?sts2 ! i) = state_insts (?sts1 ! i)"
    using lt1 by (auto simp: s2 nth_list_update new_def)
  have binv2: "builder_inv d2" using runState_inv[OF binv rs2] .
  have cinv2: "cache_inv d2"
  proof -
    have a: "\<forall>i < length ?sts1. cache d1 (Sprintf_v (state_insts (?sts1 ! i))) = Some i"
      and b: "\<forall>k v. cache d1 k = Some v \<longrightarrow>
                v < length ?sts1 \<and> k = Sprintf_v (state_insts (?sts1 ! v))"
      using cinv1 unfolding cache_inv_def by blast+
    have c: "cache d2 = cache d1" "length ?sts2 = length ?sts1" by (simp_all add: d2_def)
    show ?thesis unfolding cache_inv_def c using a b sig2 by simp
  qed
  have sok2: "\<forall>x \<in> set ?sts2. state_ok p x"
  proof
    fix x assume "x \<in> set ?sts2"
    then have "x \<in> insert new (set ?sts1)"
      using set_update_subset_insert[of ?sts1 st new] by (auto simp: s2)
    moreover have "state_ok p new"
      using sok1 \<open>?sts1 ! st \<in> set ?sts1\<close> by (simp add: state_ok_def new_def)
    ultimately show "state_ok p x" using sok1 by auto
  qed
  have inv2: "strong_inv p d2"
    using binv2 cinv2 sok2 p1 by (simp add: strong_inv_def d2_def)
  have g: "grows ?sts ?sts2"
    using len1 pre1 sig2 by (simp add: grows_def s2)
  have sw: "slot_written ?sts ?sts2 st (unat b) r"
    unfolding slot_written_def
  proof (intro conjI)
    show "grows ?sts ?sts2" by (rule g)
    show "length ?sts2 \<le> Suc (length ?sts)" using len1 by (simp add: s2)
    show "\<forall>i < length ?sts. i \<noteq> st \<longrightarrow> ?sts2 ! i = ?sts ! i"
      using pre1 by (simp add: s2)
    show "state_next (?sts2 ! st) = (state_next (?sts ! st))[unat b := r]"
      using lt1 pre1 lt by (simp add: s2 new_def)
    show "\<forall>i. length ?sts \<le> i \<and> i < length ?sts2 \<longrightarrow> r = Some i"
      using new1 by (simp add: s2)
  qed
  have "grows ?sts1 ?sts2" using sig2 by (simp add: grows_def s2)
  from target_ok_grows[OF tg1 this] have "target_ok ?sts2 sg2 r" .
  with rs2 inv2 sw show ?thesis unfolding sg2_def by blast
qed

section \<open>The invariant of the worklist is kept\<close>

lemma strong_inv_card:
  assumes "wf_prog p" and "strong_inv p d"
  shows "length (states (dfa d)) \<le> card (reach_sigs p)"
proof -
  let ?sigs = "map state_insts (states (dfa d))"
  have "distinct ?sigs" using assms(2) cache_inv_distinct by (simp add: strong_inv_def)
  then have "length (states (dfa d)) = card (set ?sigs)"
    using distinct_card[of ?sigs] by simp
  moreover have "set ?sigs \<subseteq> reach_sigs p"
    using assms(2) by (auto simp: strong_inv_def state_ok_def)
  ultimately show ?thesis
    using card_mono[OF finite_reach_sigs[OF assms(1)], of "set ?sigs"] by simp
qed

lemma slot_done_kept:
  assumes "slot_done p sts i b" and "grows sts sts2" and "i < length sts"
    and "state_next (sts2 ! i) ! unat b = state_next (sts ! i) ! unat b"
  shows "slot_done p sts2 i b"
proof -
  have "state_insts (sts2 ! i) = state_insts (sts ! i)"
    using assms(2,3) by (simp add: grows_def)
  then show ?thesis
    using target_ok_grows[OF assms(1)[unfolded slot_done_def] assms(2)] assms(4)
    by (simp add: slot_done_def)
qed

lemma mark_new_fields [simp]:
  "cur (mark_new f ns) = cur f" "nxt (mark_new f ns) = nxt f"
  by (simp_all add: mark_new_def split: option.splits)

lemma build_byte_frame:
  assumes wf: "wf_prog p" and inv: "frame_inv p f s D"
  shows "(\<exists>f1. build_byte f s k = Inr f1 \<and> frame_inv p f1 s (insert (of_nat k) D) \<and>
               length (states (dfa (bld f1))) \<le> StateLimit) \<or>
         (build_byte f s k = Inl ErrTooManyStates \<and> StateLimit < card (reach_sigs p))"
proof -
  let ?sts = "states (dfa (bld f))"
  let ?b = "of_nat k :: byte"
  have si: "strong_inv p (bld f)" and lt: "s < length ?sts"
    and stk: "stack_ok (stack f) (length ?sts)" and sn: "seen f \<subseteq> {..<length ?sts}"
    and rest: "\<forall>i < length ?sts. i = s \<or> Some i \<in> set (stack f) \<or> processed p ?sts i"
    and dn: "\<forall>b \<in> D. slot_done p ?sts s b"
    and st0: "state_insts (?sts ! 0) = start_sig p"
    using inv unfolding frame_inv_def by blast+
  from runState_strong[OF wf si lt, of "cur f" "nxt f" ?b] obtain d2 c2 n2 r where
    rs: "runState (bld f) (cur f) (nxt f) s ?b = Inr (d2, c2, n2, r)" and
    si2: "strong_inv p d2" and
    sw: "slot_written ?sts (states (dfa d2)) s (unat ?b) r" and
    tg: "target_ok (states (dfa d2)) (sig_step p (state_insts (?sts ! s)) ?b) r"
    by blast
  let ?sts2 = "states (dfa d2)"
  define f1 where "f1 = mark_new (f\<lparr>bld := d2, cur := c2, nxt := n2\<rparr>) r"
  have b1: "bld f1 = d2" by (simp add: f1_def)
  have g: "grows ?sts ?sts2"
    and others: "\<forall>i < length ?sts. i \<noteq> s \<longrightarrow> ?sts2 ! i = ?sts ! i"
    and wr: "state_next (?sts2 ! s) = (state_next (?sts ! s))[unat ?b := r]"
    and fresh: "\<forall>i. length ?sts \<le> i \<and> i < length ?sts2 \<longrightarrow> r = Some i"
    using sw unfolding slot_written_def by blast+
  have len: "length ?sts \<le> length ?sts2" using g by (simp add: grows_def)
  show ?thesis
  proof (cases "StateLimit < length ?sts2")
    case True
    then have "build_byte f s k = Inl ErrTooManyStates"
      using rs by (simp add: build_byte_def Let_def)
    moreover have "StateLimit < card (reach_sigs p)"
      using strong_inv_card[OF wf si2] True by simp
    ultimately show ?thesis by simp
  next
    case False
    then have bb: "build_byte f s k = Inr f1"
      using rs by (simp add: build_byte_def Let_def f1_def)
    have l256: "length (state_next (?sts ! s)) = 256"
    proof -
      have "?sts ! s \<in> set ?sts" using lt by simp
      moreover have "builder_inv (bld f)" using si by (simp add: strong_inv_def)
      ultimately show ?thesis unfolding builder_inv_def dfa_inv_def by blast
    qed
    \<comment> \<open>the stack and the seen set after the step\<close>
    have stack1: "set (stack f1) \<subseteq> set (stack f) \<union> {r}" "set (stack f) \<subseteq> set (stack f1)"
      and seen1: "seen f1 \<subseteq> seen f \<union> {i. r = Some i}"
      and pushed: "\<forall>i. r = Some i \<and> i \<notin> seen f \<longrightarrow> Some i \<in> set (stack f1)"
      and nonepush: "r = None \<longrightarrow> stack f1 = stack f"
      by (auto simp: f1_def mark_new_def Push_def split: option.splits)
    have rlt: "\<forall>i. r = Some i \<longrightarrow> i < length ?sts2"
      using tg by (auto simp: target_ok_def)
    have c1: "stack_ok (stack f1) (length ?sts2)"
      unfolding stack_ok_def
    proof
      fix x assume "x \<in> set (stack f1)"
      then consider "x \<in> set (stack f)" | "x = r" "stack f1 \<noteq> stack f"
        using stack1 by (cases "stack f1 = stack f") auto
      then show "\<exists>i. x = Some i \<and> i < length ?sts2"
      proof cases
        case 1
        then show ?thesis using stk len by (fastforce simp: stack_ok_def)
      next
        case 2
        then obtain i where "r = Some i" using nonepush by (cases r) auto
        with 2 rlt show ?thesis by simp
      qed
    qed
    have c2: "seen f1 \<subseteq> {..<length ?sts2}"
    proof
      fix x assume "x \<in> seen f1"
      then have "x \<in> seen f \<or> r = Some x" using seen1 by auto
      then show "x \<in> {..<length ?sts2}" using sn len rlt by fastforce
    qed
    have c3: "\<forall>i < length ?sts2. i = s \<or> Some i \<in> set (stack f1) \<or> processed p ?sts2 i"
    proof (intro allI impI)
      fix i assume i: "i < length ?sts2"
      show "i = s \<or> Some i \<in> set (stack f1) \<or> processed p ?sts2 i"
      proof (cases "i < length ?sts")
        case True
        note il = this
        show ?thesis
        proof (cases "i = s \<or> Some i \<in> set (stack f)")
          case True
          then show ?thesis using stack1 by auto
        next
          case False
          then have ne: "i \<noteq> s" and pr: "processed p ?sts i" using rest il by auto
          have e: "?sts2 ! i = ?sts ! i" using others il ne by simp
          have "processed p ?sts2 i"
            unfolding processed_def
          proof
            fix b
            have "slot_done p ?sts i b" using pr by (simp add: processed_def)
            from slot_done_kept[OF this g il] e show "slot_done p ?sts2 i b" by simp
          qed
          then show ?thesis by simp
        qed
      next
        case False
        then have "r = Some i" using fresh i by simp
        moreover have "i \<notin> seen f" using False sn by auto
        ultimately show ?thesis using pushed by simp
      qed
    qed
    have c4: "\<forall>b \<in> insert ?b D. slot_done p ?sts2 s b"
    proof
      fix b assume b: "b \<in> insert ?b D"
      have sg: "state_insts (?sts2 ! s) = state_insts (?sts ! s)"
        using g lt by (simp add: grows_def)
      show "slot_done p ?sts2 s b"
      proof (cases "b = ?b")
        case True
        have "state_next (?sts2 ! s) ! unat ?b = r"
          using wr l256 unat_byte_less[of ?b] by simp
        then show ?thesis using tg sg True by (simp add: slot_done_def)
      next
        case False
        then have d: "slot_done p ?sts s b" using b dn by simp
        have "unat b \<noteq> unat ?b" using False by (simp add: word_unat_eq_iff)
        then have "state_next (?sts2 ! s) ! unat b = state_next (?sts ! s) ! unat b"
          using wr by simp
        from slot_done_kept[OF d g lt this] show ?thesis .
      qed
    qed
    have c5: "state_insts (?sts2 ! 0) = start_sig p"
    proof -
      have "0 < length ?sts" using lt by (cases "states (dfa (bld f))") auto
      then have "state_insts (?sts2 ! 0) = state_insts (?sts ! 0)"
        using g unfolding grows_def by blast
      then show ?thesis using st0 by simp
    qed
    have "frame_inv p f1 s (insert ?b D)"
      unfolding frame_inv_def b1
      using si2 lt len c1 c2 c3 c4 c5 by simp
    with bb False show ?thesis by (simp add: b1)
  qed
qed

lemma build_bytes_frame:
  assumes wf: "wf_prog p"
  shows "frame_inv p f s D \<Longrightarrow> length (states (dfa (bld f))) \<le> StateLimit \<Longrightarrow>
         (\<exists>f1. build_bytes f s ks = Inr f1 \<and> frame_inv p f1 s (D \<union> of_nat ` set ks) \<and>
               length (states (dfa (bld f1))) \<le> StateLimit) \<or>
         (build_bytes f s ks = Inl ErrTooManyStates \<and> StateLimit < card (reach_sigs p))"
proof (induction ks arbitrary: f D)
  case Nil
  then show ?case by simp
next
  case (Cons k ks)
  from build_byte_frame[OF wf Cons.prems(1), of k] show ?case
  proof
    assume "\<exists>f1. build_byte f s k = Inr f1 \<and> frame_inv p f1 s (insert (of_nat k) D) \<and>
                 length (states (dfa (bld f1))) \<le> StateLimit"
    then obtain f1 where a: "build_byte f s k = Inr f1"
      and i: "frame_inv p f1 s (insert (of_nat k) D)"
      and l: "length (states (dfa (bld f1))) \<le> StateLimit" by blast
    have e: "insert (of_nat k) D \<union> of_nat ` set ks = D \<union> of_nat ` set (k # ks)" by auto
    from Cons.IH[OF i l] show ?thesis using a unfolding e by simp
  next
    assume "build_byte f s k = Inl ErrTooManyStates \<and> StateLimit < card (reach_sigs p)"
    then show ?thesis by simp
  qed
qed


lemma all_bytes: "(of_nat ` set [0..<256] :: byte set) = UNIV"
proof -
  have "b \<in> of_nat ` set [0..<256]" for b :: byte
  proof -
    have "b = of_nat (unat b)" by simp
    moreover have "unat b \<in> set [0..<256]" using unat_byte_less[of b] by simp
    ultimately show ?thesis by (rule image_eqI)
  qed
  then show ?thesis by auto
qed

lemma closed_complete:
  assumes si: "strong_inv p d"
    and all: "\<forall>i < length (states (dfa d)). processed p (states (dfa d)) i"
    and st: "start_ok p (states (dfa d))"
    and lim: "length (states (dfa d)) \<le> StateLimit"
  shows "complete p (dfa d)"
proof -
  let ?sts = "states (dfa d)"
  have sub: "set (map state_insts ?sts) \<subseteq> reach_sigs p"
    and mt: "list_all (\<lambda>st. state_match st = has_match p (state_insts st)) ?sts"
    using si by (auto simp: strong_inv_def state_ok_def list_all_iff)
  have ne: "\<forall>x \<in> set ?sts. state_insts x \<noteq> []"
  proof
    fix x assume "x \<in> set ?sts"
    then have "state_insts x \<in> reach_sigs p" using sub by auto
    then show "state_insts x \<noteq> []" by (cases rule: reach_sigs.cases) auto
  qed
  have sup: "sg \<in> set (map state_insts ?sts)" if "sg \<in> reach_sigs p" for sg
    using that
  proof (induction rule: reach_sigs.induct)
    case reach_start
    then have "?sts \<noteq> []" "state_insts (?sts ! 0) = start_sig p"
      using st by (auto simp: start_ok_def split: if_splits)
    then show ?case by (metis length_greater_0_conv nth_mem image_eqI set_map)
  next
    case (reach_step sg b)
    from reach_step.IH obtain i where i: "i < length ?sts" "state_insts (?sts ! i) = sg"
      by (auto simp: in_set_conv_nth)
    with all have "target_ok ?sts (sig_step p sg b) (state_next (?sts ! i) ! unat b)"
      by (auto simp: processed_def slot_done_def)
    with reach_step.hyps(2) obtain j where "j < length ?sts" "state_insts (?sts ! j) = sig_step p sg b"
      by (auto simp: target_ok_def split: option.splits)
    then show ?case by (metis nth_mem image_eqI set_map)
  qed
  have "set (map state_insts ?sts) = reach_sigs p" using sub sup by blast
  moreover have "distinct (map state_insts ?sts)"
    using si cache_inv_distinct by (simp add: strong_inv_def)
  moreover have "insts (dfa d) = p" "dfa_inv (dfa d)"
    using si by (simp_all add: strong_inv_def builder_inv_def)
  ultimately show ?thesis using mt all st lim unfolding complete_def by blast
qed

lemma Pop_cases:
  "(stk = [] \<and> Pop stk = ([], None)) \<or> (\<exists>ys y. stk = ys @ [y] \<and> Pop stk = (ys, y))"
  by (cases stk rule: rev_cases) (auto simp: Pop_def Let_def)

lemma build_loop_correct:
  assumes wf: "wf_prog p"
  shows "loop_inv p f so \<Longrightarrow>
         (\<exists>dd. build_loop f so = Inr dd \<and> complete p dd) \<or>
         (build_loop f so = Inl ErrTooManyStates \<and> StateLimit < card (reach_sigs p))"
proof (induction f so rule: build_loop.induct)
  case (1 f)
  then have "complete p (dfa (bld f))"
    by (intro closed_complete) (auto simp: loop_inv_def)
  then show ?case by simp
next
  case (2 f s)
  let ?sts = "states (dfa (bld f))"
  have si: "strong_inv p (bld f)" and stk: "stack_ok (stack f) (length ?sts)"
    and lt: "s < length ?sts" and sn: "seen f \<subseteq> {..<length ?sts}"
    and rest: "\<forall>i < length ?sts. Some s = Some i \<or> Some i \<in> set (stack f) \<or> processed p ?sts i"
    and lim: "length ?sts \<le> StateLimit" and st: "start_ok p ?sts"
    using 2(2) unfolding loop_inv_def by (simp_all)
  have "?sts \<noteq> []" using lt by (cases ?sts) auto
  then have st0: "state_insts (?sts ! 0) = start_sig p" using st by (simp add: start_ok_def)
  have fi: "frame_inv p f s {}"
    unfolding frame_inv_def using si lt stk sn rest st0 by auto
  from build_bytes_frame[OF wf fi lim, of "[0..<256]"] show ?case
  proof
    assume "build_bytes f s [0..<256] = Inl ErrTooManyStates \<and> StateLimit < card (reach_sigs p)"
    then show ?thesis by simp
  next
    assume "\<exists>f1. build_bytes f s [0..<256] = Inr f1 \<and>
                 frame_inv p f1 s ({} \<union> of_nat ` set [0..<256]) \<and>
                 length (states (dfa (bld f1))) \<le> StateLimit"
    then obtain f1 where bb: "build_bytes f s [0..<256] = Inr f1"
      and fi1: "frame_inv p f1 s UNIV"
      and lim1: "length (states (dfa (bld f1))) \<le> StateLimit"
      unfolding all_bytes by auto
    let ?sts1 = "states (dfa (bld f1))"
    have si1: "strong_inv p (bld f1)" and lt1: "s < length ?sts1"
      and stk1: "stack_ok (stack f1) (length ?sts1)" and sn1: "seen f1 \<subseteq> {..<length ?sts1}"
      and rest1: "\<forall>i < length ?sts1. i = s \<or> Some i \<in> set (stack f1) \<or> processed p ?sts1 i"
      and dn1: "\<forall>b \<in> UNIV. slot_done p ?sts1 s b"
      and st1: "state_insts (?sts1 ! 0) = start_sig p"
      using fi1 unfolding frame_inv_def by blast+
    have ps: "processed p ?sts1 s" using dn1 by (simp add: processed_def)
    have "?sts1 \<noteq> []" using lt1 by (cases ?sts1) auto
    then have so1: "start_ok p ?sts1" using st1 by (simp add: start_ok_def)
    obtain stk s1 where pop: "Pop (stack f1) = (stk, s1)" by (cases "Pop (stack f1)")
    have li: "loop_inv p (f1\<lparr>stack := stk\<rparr>) s1"
    proof -
      from Pop_cases[of "stack f1"] show ?thesis
      proof
        assume "stack f1 = [] \<and> Pop (stack f1) = ([], None)"
        then have e: "stack f1 = []" "stk = []" "s1 = None" using pop by simp_all
        have "\<forall>i < length ?sts1. processed p ?sts1 i" using rest1 ps e by auto
        then show ?thesis
          unfolding loop_inv_def using si1 sn1 lim1 so1 e by (simp add: stack_ok_def)
      next
        assume "\<exists>ys y. stack f1 = ys @ [y] \<and> Pop (stack f1) = (ys, y)"
        then obtain ys y where e: "stack f1 = ys @ [y]" "stk = ys" "s1 = y" using pop by auto
        from stk1 e obtain j where j: "y = Some j" "j < length ?sts1"
          by (auto simp: stack_ok_def)
        have a: "stack_ok ys (length ?sts1)" using stk1 e by (simp add: stack_ok_def)
        have "\<forall>i < length ?sts1. Some j = Some i \<or> Some i \<in> set ys \<or> processed p ?sts1 i"
        proof (intro allI impI)
          fix i assume "i < length ?sts1"
          with rest1 have "i = s \<or> Some i \<in> set (stack f1) \<or> processed p ?sts1 i" by simp
          then show "Some j = Some i \<or> Some i \<in> set ys \<or> processed p ?sts1 i"
            using ps e j by auto
        qed
        then show ?thesis
          unfolding loop_inv_def using si1 sn1 lim1 so1 e j a by simp
      qed
    qed
    from 2(1)[OF bb pop[symmetric] li] show ?thesis using bb pop by simp
  qed
qed

lemma strong_inv_new: "strong_inv p (newDfaBuilder p)"
  by (simp add: strong_inv_def builder_inv_new cache_inv_def)
     (simp add: newDfaBuilder_def)

lemma dfa_newDfaBuilder: "dfa (newDfaBuilder p) = dfa_of p"
  by (simp add: newDfaBuilder_def dfa_of_def)

text \<open>The statements of \<open>build\<close> before its loop establish the invariant.\<close>

lemma build_init:
  assumes wf: "wf_prog p"
  shows "\<exists>c1 d1 r.
           add (dfa (newDfaBuilder p)) (newSparseSet (length p)) 0 = Inr c1 \<and>
           cachedState (newDfaBuilder p) c1 = Inr (d1, r) \<and>
           loop_inv p \<lparr>bld = d1, cur = c1, nxt = newSparseSet (length p), stack = [], seen = {}\<rparr> r \<and>
           build (newDfaBuilder p) =
             build_loop \<lparr>bld = d1, cur = c1, nxt = newSparseSet (length p), stack = [], seen = {}\<rparr> r \<and>
           target_ok (states (dfa d1)) (start_sig p) r \<and> length (states (dfa d1)) \<le> 1"
proof -
  let ?d0 = "newDfaBuilder p"
  have t: "targets_in_bounds (insts (dfa_of p))" and l: "0 < length (insts (dfa_of p))"
    using wf by (simp_all add: wf_prog_def)
  from add_appends[OF t l, of "newSparseSet (length p)"] obtain xs where
    a: "add (dfa_of p) (newSparseSet (length p)) 0 = Inr ((newSparseSet (length p))\<lparr>dense := xs\<rparr>)"
    and fr: "fresh_for (dfa_of p) (newSparseSet (length p)) xs"
    by (auto simp: newSparseSet_def)
  let ?c1 = "(newSparseSet (length p))\<lparr>dense := xs\<rparr>"
  have ss: "start_sig p = signature p xs" using a by (simp add: start_sig_def)
  have ip: "in_prog p xs" using fr by (simp add: fresh_for_def in_prog_def list_all_iff)
  have "in_prog (insts (dfa ?d0)) (dense ?c1)" using ip by (simp add: dfa_newDfaBuilder)
  from cachedState_intern[OF this] have
    cs: "cachedState ?d0 ?c1 = Inr (intern ?d0 (start_sig p))"
    by (simp add: dfa_newDfaBuilder ss)
  obtain d1 r where i: "intern ?d0 (start_sig p) = (d1, r)" by (cases "intern ?d0 (start_sig p)")
  have ok: "start_sig p = [] \<or> start_sig p \<in> reach_sigs p" using reach_start[of p] by auto
  from intern_strong[OF strong_inv_new ok ip ss[symmetric] i] have
    si1: "strong_inv p d1" and tg: "target_ok (states (dfa d1)) (start_sig p) r" and
    sh: "d1 = ?d0 \<or> (\<exists>x. states (dfa d1) = states (dfa ?d0) @ [x] \<and>
                          r = Some (length (states (dfa ?d0))))"
    by blast+
  let ?f = "\<lparr>bld = d1, cur = ?c1, nxt = newSparseSet (length p), stack = [], seen = {}\<rparr>"
  have li: "loop_inv p ?f r" and le: "length (states (dfa d1)) \<le> 1"
  proof -
    from sh have "loop_inv p ?f r \<and> length (states (dfa d1)) \<le> 1"
    proof
      assume e: "d1 = ?d0"
      then have nil: "states (dfa d1) = []" by (simp add: newDfaBuilder_def)
      with tg have "r = None" "start_sig p = []"
        by (auto simp: target_ok_def split: option.splits)
      then show ?thesis
        unfolding loop_inv_def using si1 nil by (simp add: stack_ok_def start_ok_def)
    next
      assume "\<exists>x. states (dfa d1) = states (dfa ?d0) @ [x] \<and> r = Some (length (states (dfa ?d0)))"
      then obtain x where x: "states (dfa d1) = [x]" "r = Some 0"
        by (auto simp: newDfaBuilder_def)
      with tg have "state_insts x = start_sig p" by (simp add: target_ok_def)
      then show ?thesis
        unfolding loop_inv_def using si1 x
        by (simp add: stack_ok_def start_ok_def StateLimit_def)
    qed
    then show "loop_inv p ?f r" and "length (states (dfa d1)) \<le> 1" by simp_all
  qed
  have b: "build ?d0 = build_loop ?f r"
    using a cs i by (simp add: build_def Let_def dfa_newDfaBuilder Pop_def)
  have "add (dfa ?d0) (newSparseSet (length p)) 0 = Inr ?c1"
    using a by (simp add: dfa_newDfaBuilder)
  moreover have "cachedState ?d0 ?c1 = Inr (d1, r)" using cs i by simp
  ultimately show ?thesis using li b tg le by blast
qed

text \<open>The construction either completes or stops at the limit, which it then exceeds.\<close>

lemma build_correct:
  assumes wf: "wf_prog p"
  shows "(\<exists>dd. build (newDfaBuilder p) = Inr dd \<and> complete p dd) \<or>
         (build (newDfaBuilder p) = Inl ErrTooManyStates \<and> StateLimit < card (reach_sigs p))"
proof -
  from build_init[OF wf] obtain c1 d1 r where
    li: "loop_inv p \<lparr>bld = d1, cur = c1, nxt = newSparseSet (length p), stack = [], seen = {}\<rparr> r"
    and b: "build (newDfaBuilder p) =
              build_loop \<lparr>bld = d1, cur = c1, nxt = newSparseSet (length p), stack = [], seen = {}\<rparr> r"
    by blast
  from build_loop_correct[OF wf li] show ?thesis unfolding b .
qed

section \<open>Consequences for the automaton that \<open>build\<close> returns\<close>

lemma complete_length:
  assumes "wf_prog p" and "complete p dd"
  shows "length (states dd) = card (reach_sigs p)"
proof -
  have "distinct (map state_insts (states dd))" "set (map state_insts (states dd)) = reach_sigs p"
    using assms(2) by (simp_all add: complete_def)
  then show ?thesis using distinct_card[of "map state_insts (states dd)"] by simp
qed


lemma sig_step_no_cover:
  assumes wf: "wf_prog p" and ip: "in_prog p sg"
    and nc: "\<forall>ip \<in> set sg. \<not> covers (p ! ip) b"
  shows "sig_step p sg b = []"
proof -
  have t: "targets_in_bounds (insts (dfa_of p))" and f: "falls_in_bounds (insts (dfa_of p))"
    using wf by (simp_all add: wf_prog_def)
  have i0: "in_prog (insts (dfa_of p)) (dense \<lparr>capacity = length p, dense = sg\<rparr>)"
    using ip by simp
  from run_result[OF t f i0, of "newSparseSet (length p)" b] obtain tc where
    rc: "run (dfa_of p) \<lparr>capacity = length p, dense = sg\<rparr> (newSparseSet (length p)) b =
           Inr (tc, has_match p sg)" and
    st: "set (dense tc) = eps_closure p (step_seeds p sg b)"
    by auto
  have "step_seeds p sg b = {}" using nc by (auto simp: step_seeds_def)
  then have "dense tc = []" using st by simp
  then show ?thesis using rc by (simp add: sig_step_def signature_def)
qed

lemma reach_sigs_not_Nil: "sg \<in> reach_sigs p \<Longrightarrow> sg \<noteq> []"
  by (cases rule: reach_sigs.cases) auto

lemma target_ok_Nil:
  assumes "target_ok sts [] r" and "\<forall>x \<in> set sts. state_insts x \<noteq> []"
  shows "r = None"
proof (cases r)
  case None
  then show ?thesis .
next
  case (Some j)
  with assms(1) have "j < length sts" "state_insts (sts ! j) = []" by (simp_all add: target_ok_def)
  with assms(2) show ?thesis by (metis nth_mem)
qed

lemma complete_sigs_not_Nil:
  "complete p dd \<Longrightarrow> \<forall>x \<in> set (states dd). state_insts x \<noteq> []"
  using reach_sigs_not_Nil[of _ p] by (auto simp: complete_def)

text \<open>
  C1.  For a well-formed program, \<open>build\<close> returns \<open>ErrTooManyStates\<close> exactly when the
  program has more than \<open>StateLimit = 10000\<close> reachable signatures, which are the
  states the construction discovers; it then returns no automaton.  When the number of
  reachable signatures is within the limit, \<open>build\<close> returns, without error, the
  completed automaton, which has one state for each of them.
\<close>

theorem build_fails_iff_too_many_states:
  assumes "wf_prog p"
  shows "(build (newDfaBuilder p) = Inl ErrTooManyStates \<longleftrightarrow> StateLimit < card (reach_sigs p)) \<and>
         (StateLimit < card (reach_sigs p) \<longrightarrow> (\<forall>dd. build (newDfaBuilder p) \<noteq> Inr dd)) \<and>
         (card (reach_sigs p) \<le> StateLimit \<longrightarrow>
            (\<exists>dd. build (newDfaBuilder p) = Inr dd \<and> complete p dd \<and>
                  length (states dd) = card (reach_sigs p)))"
proof -
  from build_correct[OF assms] show ?thesis
  proof
    assume "\<exists>dd. build (newDfaBuilder p) = Inr dd \<and> complete p dd"
    then obtain dd where b: "build (newDfaBuilder p) = Inr dd" and c: "complete p dd" by blast
    have l: "length (states dd) = card (reach_sigs p)" by (rule complete_length[OF assms c])
    moreover have "length (states dd) \<le> StateLimit" using c by (simp add: complete_def)
    ultimately have "\<not> StateLimit < card (reach_sigs p)" by simp
    with b c l show ?thesis by simp
  next
    assume "build (newDfaBuilder p) = Inl ErrTooManyStates \<and> StateLimit < card (reach_sigs p)"
    then show ?thesis by simp
  qed
qed

section \<open>Example A: the program of \<open>a\<close>\<close>

lemma wf_prog_a: "wf_prog prog_a"
  by (simp add: wf_prog_def targets_in_bounds_def falls_in_bounds_def prog_a_def iRange_def
        iMatch_def upt_rec)

lemma start_sig_prog_a: "start_sig prog_a = [0]"
  by code_simp

lemma sig_step_prog_a_97: "sig_step prog_a [0] 97 = [1]"
  by code_simp

lemma byte_between: "(lo :: byte) \<le> b \<and> b \<le> lo \<longleftrightarrow> b = lo"
  by auto

lemma sig_step_prog_a_0: "b \<noteq> 97 \<Longrightarrow> sig_step prog_a [0] b = []"
  by (rule sig_step_no_cover[OF wf_prog_a])
     (simp_all add: in_prog_def covers_def prog_a_def iRange_def byte_between)

lemma sig_step_prog_a_1: "sig_step prog_a [1] b = []"
  by (rule sig_step_no_cover[OF wf_prog_a])
     (simp_all add: in_prog_def covers_def prog_a_def iRange_def iMatch_def)

lemma reach_sigs_prog_a: "reach_sigs prog_a = {[0], [1]}"
proof
  show "reach_sigs prog_a \<subseteq> {[0], [1]}"
  proof
    fix sg assume "sg \<in> reach_sigs prog_a"
    then show "sg \<in> {[0], [1]}"
    proof (induction rule: reach_sigs.induct)
      case reach_start
      then show ?case by (simp add: start_sig_prog_a)
    next
      case (reach_step sg b)
      then show ?case
        using sig_step_prog_a_0[of b] sig_step_prog_a_1[of b] sig_step_prog_a_97
        by (cases "b = 97") auto
    qed
  qed
next
  have a: "[0] \<in> reach_sigs prog_a"
    using reach_start[of prog_a] by (simp add: start_sig_prog_a)
  from reach_step[OF a, of 97] have "[1] \<in> reach_sigs prog_a"
    by (simp add: sig_step_prog_a_97)
  with a show "{[0], [1]} \<subseteq> reach_sigs prog_a" by simp
qed

lemma two_states:
  assumes "distinct (map state_insts sts)" and "set (map state_insts sts) = {a, b}" and "a \<noteq> b"
    and "state_insts (sts ! 0) = a"
  shows "length sts = 2 \<and> state_insts (sts ! 1) = b"
proof -
  have "length sts = card (set (map state_insts sts))"
    using distinct_card[OF assms(1)] by simp
  then have l: "length sts = 2" using assms(2,3) by simp
  then have "state_insts (sts ! 1) \<in> {a, b}"
    using assms(2) nth_mem[of 1 "map state_insts sts"] by simp
  moreover have "state_insts (sts ! 1) \<noteq> state_insts (sts ! 0)"
    using assms(1) l nth_eq_iff_index_eq[of "map state_insts sts" 1 0] by simp
  ultimately show ?thesis using l assms(4) by auto
qed

lemma length_all_reject [simp]: "length all_reject = 256"
  by (simp add: all_reject_def)

lemma nth_all_reject [simp]: "k < 256 \<Longrightarrow> all_reject ! k = None"
  by (simp add: all_reject_def)

lemma length_one_target [simp]: "length (one_target k j) = 256"
  by (simp add: one_target_def)

lemma nth_one_target:
  "i < 256 \<Longrightarrow> one_target k j ! i = (if i = k then Some j else None)"
  by (simp add: one_target_def nth_list_update)

lemma slot_of_byte:
  assumes "processed p sts i" and "k < 256"
  shows "target_ok sts (sig_step p (state_insts (sts ! i)) (of_nat k)) (state_next (sts ! i) ! k)"
proof -
  have "unat (of_nat k :: byte) = k" using assms(2) by (simp add: unat_of_nat)
  then show ?thesis using assms(1) unfolding processed_def slot_done_def by metis
qed

lemma of_nat_byte_eq: "k < 256 \<Longrightarrow> (of_nat k :: byte) = 97 \<longleftrightarrow> k = 97"
proof
  assume k: "k < 256" and "of_nat k = (97 :: byte)"
  then have "unat (of_nat k :: byte) = unat (97 :: byte)" by simp
  then show "k = 97" using k by (simp add: unat_of_nat)
next
  assume "k = 97"
  then show "of_nat k = (97 :: byte)" by simp
qed

lemma build_prog_a: "build (newDfaBuilder prog_a) = Inr dfa_a"
proof -
  have "card (reach_sigs prog_a) \<le> StateLimit"
    by (simp add: reach_sigs_prog_a StateLimit_def)
  with build_correct[OF wf_prog_a] obtain dd where
    b: "build (newDfaBuilder prog_a) = Inr dd" and c: "complete prog_a dd" by auto
  let ?sts = "states dd"
  have ins: "insts dd = prog_a" and inv: "dfa_inv dd"
    and di: "distinct (map state_insts ?sts)"
    and se: "set (map state_insts ?sts) = {[0], [1]}"
    and mt: "list_all (\<lambda>st. state_match st = has_match prog_a (state_insts st)) ?sts"
    and pr: "\<forall>i < length ?sts. processed prog_a ?sts i"
    and so: "start_ok prog_a ?sts"
    using c by (simp_all add: complete_def reach_sigs_prog_a)
  have ne: "?sts \<noteq> []"
  proof
    assume "?sts = []"
    then have "set (map state_insts ?sts) = {}" by simp
    with se show False by simp
  qed
  have s0: "state_insts (?sts ! 0) = [0]"
    using so ne unfolding start_ok_def start_sig_prog_a by simp
  from two_states[OF di se _ s0] have len: "length ?sts = 2" and s1: "state_insts (?sts ! 1) = [1]"
    by simp_all
  have sts: "?sts = [?sts ! 0, ?sts ! 1]"
  proof (intro nth_equalityI)
    show "length ?sts = length [?sts ! 0, ?sts ! 1]" using len by simp
  next
    fix i assume "i < length ?sts"
    then have "i = 0 \<or> i = 1" using len by auto
    then show "?sts ! i = [?sts ! 0, ?sts ! 1] ! i" by auto
  qed
  have m0: "state_match (?sts ! 0) = False" and m1: "state_match (?sts ! 1) = True"
    using mt len s0 s1 by (simp_all add: list_all_length has_match_def prog_a_def iRange_def iMatch_def)
  have "?sts ! 0 \<in> set ?sts" "?sts ! 1 \<in> set ?sts" using len by simp_all
  then have l0: "length (state_next (?sts ! 0)) = 256"
    and l1: "length (state_next (?sts ! 1)) = 256"
    using inv unfolding dfa_inv_def by blast+
  have nonnil: "\<forall>x \<in> set ?sts. state_insts x \<noteq> []" by (rule complete_sigs_not_Nil[OF c])
  have p0: "processed prog_a ?sts 0" and p1: "processed prog_a ?sts 1" using pr len by simp_all
  have n1: "state_next (?sts ! 1) = all_reject"
  proof (intro nth_equalityI)
    show "length (state_next (?sts ! 1)) = length all_reject" using l1 by simp
  next
    fix k assume "k < length (state_next (?sts ! 1))"
    then have k: "k < 256" using l1 by simp
    from slot_of_byte[OF p1 k] have "target_ok ?sts [] (state_next (?sts ! 1) ! k)"
      unfolding s1 sig_step_prog_a_1 .
    from target_ok_Nil[OF this nonnil] show "state_next (?sts ! 1) ! k = all_reject ! k"
      using k by simp
  qed
  have n0: "state_next (?sts ! 0) = one_target 97 1"
  proof (intro nth_equalityI)
    show "length (state_next (?sts ! 0)) = length (one_target 97 1)"
      using l0 by simp
  next
    fix k assume "k < length (state_next (?sts ! 0))"
    then have k: "k < 256" using l0 by simp
    note t = slot_of_byte[OF p0 k]
    show "state_next (?sts ! 0) ! k = one_target 97 1 ! k"
    proof (cases "k = 97")
      case True
      with t have "target_ok ?sts [1] (state_next (?sts ! 0) ! 97)"
        by (simp add: s0 sig_step_prog_a_97)
      then obtain j where j: "state_next (?sts ! 0) ! 97 = Some j" "j < length ?sts"
        "state_insts (?sts ! j) = [1]"
        by (auto simp: target_ok_def split: option.splits)
      then have "j = 1" using len s0 by (cases "j = 0") auto
      with j True show ?thesis by (simp add: nth_one_target)
    next
      case False
      then have "(of_nat k :: byte) \<noteq> 97" using of_nat_byte_eq[OF k] by simp
      with t have "target_ok ?sts [] (state_next (?sts ! 0) ! k)"
        by (simp add: s0 sig_step_prog_a_0)
      from target_ok_Nil[OF this nonnil] False k show ?thesis by (simp add: nth_one_target)
    qed
  qed
  have e0: "?sts ! 0 = \<lparr>state_insts = [0], state_next = one_target 97 1,
                         state_match = False\<rparr>"
    using s0 n0 m0 by (cases "?sts ! 0") simp
  have e1: "?sts ! 1 = \<lparr>state_insts = [1], state_next = all_reject, state_match = True\<rparr>"
    using s1 n1 m1 by (cases "?sts ! 1") simp
  have "dd = dfa_a"
    using ins sts e0 e1 unfolding dfa_a_def by (cases dd) simp
  with b show ?thesis by simp
qed

text \<open>
  C8.  For the program \<open>[Range('a','a'), Match]\<close>, \<open>build\<close> succeeds.  It returns two
  states.  State 0, the start state, has the signature \<open>[0]\<close>; its slot for the byte
  \<open>'a'\<close> (97) holds state 1, and each of its other 255 slots is reject.  State 1 has the
  match flag set, and each of its 256 slots is reject.
\<close>

theorem build_example_a:
  "build (newDfaBuilder [iRange 97 97, iMatch]) =
     Inr \<lparr>insts = [iRange 97 97, iMatch],
          states = [\<lparr>state_insts = [0], state_next = (replicate 256 None)[97 := Some 1],
                     state_match = False\<rparr>,
                    \<lparr>state_insts = [1], state_next = replicate 256 None, state_match = True\<rparr>]\<rparr>"
  using build_prog_a unfolding dfa_a_def prog_a_def one_target_def all_reject_def .

theorem build_fails_iff_too_many_states_witness:
  "wf_prog prog_a \<and> card (reach_sigs prog_a) = 2 \<and> card (reach_sigs prog_a) \<le> StateLimit \<and>
   build (newDfaBuilder prog_a) \<noteq> Inl ErrTooManyStates \<and>
   (\<exists>dd. build (newDfaBuilder prog_a) = Inr dd \<and> length (states dd) = 2)"
proof -
  have c: "card (reach_sigs prog_a) = 2" by (simp add: reach_sigs_prog_a)
  then have l: "card (reach_sigs prog_a) \<le> StateLimit" by (simp add: StateLimit_def)
  from build_fails_iff_too_many_states[OF wf_prog_a] c l wf_prog_a show ?thesis by auto
qed

theorem build_keeps_dfa_inv_witness:
  "builder_steps (newDfaBuilder prog_a) (newDfaBuilder prog_a) \<and>
   dfa_inv (dfa (newDfaBuilder prog_a)) \<and>
   build (newDfaBuilder prog_a) = Inr dfa_a \<and> dfa_inv dfa_a"
  using build_keeps_dfa_inv[of prog_a "newDfaBuilder prog_a" dfa_a] build_prog_a
    steps_refl[of "newDfaBuilder prog_a"]
  by simp

section \<open>A program without a significant instruction in its start closure\<close>

text \<open>
  C9.  For a non-empty program whose \<open>Jmp\<close> and \<open>Split\<close> targets are in bounds and
  whose instructions reachable from instruction 0 over \<open>Jmp\<close> and \<open>Split\<close> edges include
  no \<open>Range\<close> and no \<open>Match\<close>, \<open>build\<close> returns, without error, an automaton with no
  state.
\<close>

theorem build_without_start_state:
  assumes "p \<noteq> []" and "targets_in_bounds p"
    and "\<forall>j \<in> (eps_rel p)\<^sup>* `` {0}. op (p ! j) \<noteq> OpRange \<and> op (p ! j) \<noteq> OpMatch"
  shows "build (newDfaBuilder p) = Inr \<lparr>insts = p, states = []\<rparr>"
proof -
  let ?d0 = "newDfaBuilder p"
  have t: "targets_in_bounds (insts (dfa_of p))" and l: "0 < length (insts (dfa_of p))"
    using assms(1,2) by simp_all
  from add_appends[OF t l, of "newSparseSet (length p)"] obtain xs where
    a: "add (dfa_of p) (newSparseSet (length p)) 0 = Inr ((newSparseSet (length p))\<lparr>dense := xs\<rparr>)"
    and fr: "fresh_for (dfa_of p) (newSparseSet (length p)) xs"
    by (auto simp: newSparseSet_def)
  let ?c1 = "(newSparseSet (length p))\<lparr>dense := xs\<rparr>"
  have "eps_closed (insts (dfa_of p)) (set (dense (newSparseSet (length p))))"
    by (simp add: newSparseSet_def)
  from add_closed[OF a this] have xs: "set xs = eps_closure p {0}"
    by (simp add: newSparseSet_def)
  have "\<forall>x \<in> set xs. \<not> significant p x"
    using assms(3) unfolding xs eps_closure_def significant_def by blast
  then have "signature p xs = []"
    by (simp add: signature_def filter_empty_conv)
  moreover have ip: "in_prog p xs"
    using fr by (simp add: fresh_for_def in_prog_def list_all_iff)
  then have "in_prog (insts (dfa ?d0)) (dense ?c1)" by (simp add: dfa_newDfaBuilder)
  ultimately have cs: "cachedState ?d0 ?c1 = Inr (?d0, None)"
    using cachedState_intern[of ?d0 ?c1] by (simp add: dfa_newDfaBuilder intern_def)
  show ?thesis
    using a cs by (simp add: build_def Let_def dfa_newDfaBuilder Pop_def dfa_of_def)
qed

lemma closure_prog_loop: "(eps_rel prog_loop)\<^sup>* `` {0} = {0}"
proof -
  have "eps_closed prog_loop {0}"
    by (simp add: eps_closed_def eps_succs_def prog_loop_def iJmp_def)
  from eps_closed_closure[OF this] have "eps_closure prog_loop {0} \<subseteq> {0}" by simp
  then show ?thesis using eps_closure_refl[of 0 prog_loop] by (auto simp: eps_closure_def)
qed

theorem build_without_start_state_witness:
  "prog_loop \<noteq> [] \<and> targets_in_bounds prog_loop \<and> (eps_rel prog_loop)\<^sup>* `` {0} = {0} \<and>
   op (prog_loop ! 0) = OpJmp \<and>
   build (newDfaBuilder prog_loop) = Inr \<lparr>insts = prog_loop, states = []\<rparr>"
proof -
  have n: "prog_loop \<noteq> []" and t: "targets_in_bounds prog_loop"
    and o: "op (prog_loop ! 0) = OpJmp"
    by (simp_all add: prog_loop_def targets_in_bounds_def iJmp_def)
  have h: "\<forall>j \<in> (eps_rel prog_loop)\<^sup>* `` {0}.
             op (prog_loop ! j) \<noteq> OpRange \<and> op (prog_loop ! j) \<noteq> OpMatch"
    unfolding closure_prog_loop using o by simp
  from build_without_start_state[OF n t h] n t o closure_prog_loop show ?thesis by simp
qed

section \<open>Interning by signature\<close>

lemma cachedState_cache:
  assumes "cache_inv d" and "cachedState d s = Inr (d1, r)"
  shows "cache_inv d1 \<and> grows (states (dfa d)) (states (dfa d1)) \<and>
         insts (dfa d1) = insts (dfa d) \<and>
         target_ok (states (dfa d1)) (signature (insts (dfa d)) (dense s)) r \<and>
         (signature (insts (dfa d)) (dense s) = [] \<longrightarrow> r = None)"
proof -
  from cachedState_Inr[OF assms(2)] have
    "intern d (signature (insts (dfa d)) (dense s)) = (d1, r)" by simp
  from intern_cache[OF assms(1) this] show ?thesis .
qed

lemma runState_cache:
  assumes "cache_inv d" and "runState d c n st b = Inr (d2, c2, n2, r)"
  shows "cache_inv d2 \<and> grows (states (dfa d)) (states (dfa d2)) \<and>
         insts (dfa d2) = insts (dfa d)"
proof -
  from runState_Inr[OF assms(2)] obtain d1 where
    lt: "st < length (states (dfa d))" and
    cs: "cachedState d n2 = Inr (d1, r)" and
    d2: "d2 = d1\<lparr>dfa := (dfa d1)\<lparr>states := (states (dfa d1))
                        [st := (states (dfa d1) ! st)
                           \<lparr>state_next := (state_next (states (dfa d1) ! st))[unat b := r]\<rparr>]\<rparr>\<rparr>"
    by blast
  from cachedState_cache[OF assms(1) cs] have
    c1: "cache_inv d1" and g1: "grows (states (dfa d)) (states (dfa d1))"
    and p1: "insts (dfa d1) = insts (dfa d)" by simp_all
  let ?sts1 = "states (dfa d1)"
  let ?sts2 = "states (dfa d2)"
  have lt1: "st < length ?sts1" using lt g1 by (simp add: grows_def)
  have len: "length ?sts2 = length ?sts1" by (simp add: d2)
  have sig2: "\<forall>i < length ?sts1. state_insts (?sts2 ! i) = state_insts (?sts1 ! i)"
    using lt1 by (auto simp: d2 nth_list_update)
  have a: "\<forall>i < length ?sts1. cache d1 (Sprintf_v (state_insts (?sts1 ! i))) = Some i"
    and b: "\<forall>k v. cache d1 k = Some v \<longrightarrow>
              v < length ?sts1 \<and> k = Sprintf_v (state_insts (?sts1 ! v))"
    using c1 unfolding cache_inv_def by blast+
  have c: "cache d2 = cache d1" by (simp add: d2)
  have "cache_inv d2" unfolding cache_inv_def c len using a b sig2 by simp
  moreover have "grows ?sts1 ?sts2" using sig2 len by (simp add: grows_def)
  then have "grows (states (dfa d)) ?sts2" using g1 grows_trans by blast
  moreover have "insts (dfa d2) = insts (dfa d)" using p1 by (simp add: d2)
  ultimately show ?thesis by simp
qed

lemma builder_steps_cache:
  "builder_steps d d1 \<Longrightarrow> cache_inv d \<Longrightarrow>
     cache_inv d1 \<and> grows (states (dfa d)) (states (dfa d1)) \<and> insts (dfa d1) = insts (dfa d)"
proof (induction rule: builder_steps.induct)
  case (steps_refl d)
  then show ?case by simp
next
  case (steps_cachedState d d1 s d2 r)
  from steps_cachedState.IH[OF steps_cachedState.prems] cachedState_cache[of d1 s d2 r]
    steps_cachedState.hyps(2) grows_trans
  show ?case by metis
next
  case (steps_runState d d1 c n st b d2 c2 n2 r)
  from steps_runState.IH[OF steps_runState.prems] runState_cache[of d1 c n st b d2 c2 n2 r]
    steps_runState.hyps(2) grows_trans
  show ?case by metis
qed

lemma cache_inv_new: "cache_inv (newDfaBuilder p)"
  by (simp add: cache_inv_def newDfaBuilder_def)





section \<open>Example C: the program of \<open>a*\<close>, whose start state is its own successor\<close>

lemma build_byte_target:
  assumes wf: "wf_prog p" and inv: "frame_inv p f s D" and bb: "build_byte f s k = Inr f1"
  shows "\<exists>r. target_ok (states (dfa (bld f1)))
                (sig_step p (state_insts (states (dfa (bld f)) ! s)) (of_nat k)) r \<and>
             stack f1 = stack (mark_new f r) \<and> seen f1 = seen (mark_new f r)"
proof -
  have si: "strong_inv p (bld f)" and lt: "s < length (states (dfa (bld f)))"
    using inv unfolding frame_inv_def by blast+
  from runState_strong[OF wf si lt, of "cur f" "nxt f" "of_nat k"] obtain d2 c2 n2 r where
    rs: "runState (bld f) (cur f) (nxt f) s (of_nat k) = Inr (d2, c2, n2, r)" and
    tg: "target_ok (states (dfa d2))
           (sig_step p (state_insts (states (dfa (bld f)) ! s)) (of_nat k)) r"
    by blast
  from build_byte_Inr[OF bb] rs have f1: "f1 = mark_new (f\<lparr>bld := d2, cur := c2, nxt := n2\<rparr>) r"
    by auto
  have "stack f1 = stack (mark_new f r)" "seen f1 = seen (mark_new f r)"
    unfolding f1 by (simp_all add: mark_new_def split: option.splits)
  moreover have "bld f1 = d2" by (simp add: f1)
  ultimately show ?thesis using tg by auto
qed

lemma wf_prog_a_star: "wf_prog prog_a_star"
  by (simp add: wf_prog_def targets_in_bounds_def falls_in_bounds_def prog_a_star_def
        iSplit_def iRange_def iJmp_def iMatch_def upt_rec)

lemma start_sig_prog_a_star: "start_sig prog_a_star = [1, 3]"
  by code_simp

lemma sig_step_prog_a_star_97: "sig_step prog_a_star [1, 3] 97 = [1, 3]"
  by code_simp

lemma sig_step_prog_a_star_other: "b \<noteq> 97 \<Longrightarrow> sig_step prog_a_star [1, 3] b = []"
  by (rule sig_step_no_cover[OF wf_prog_a_star])
     (simp_all add: in_prog_def covers_def prog_a_star_def iRange_def iMatch_def byte_between)

lemma reach_sigs_prog_a_star: "reach_sigs prog_a_star = {[1, 3]}"
proof
  show "reach_sigs prog_a_star \<subseteq> {[1, 3]}"
  proof
    fix sg assume "sg \<in> reach_sigs prog_a_star"
    then show "sg \<in> {[1, 3]}"
    proof (induction rule: reach_sigs.induct)
      case reach_start
      then show ?case by (simp add: start_sig_prog_a_star)
    next
      case (reach_step sg b)
      then show ?case
        using sig_step_prog_a_star_other[of b] sig_step_prog_a_star_97
        by (cases "b = 97") auto
    qed
  qed
next
  show "{[1, 3]} \<subseteq> reach_sigs prog_a_star"
    using reach_start[of prog_a_star] by (simp add: start_sig_prog_a_star)
qed

lemma one_state_prog_a_star:
  assumes "strong_inv prog_a_star d"
  shows "length (states (dfa d)) \<le> 1 \<and> (\<forall>x \<in> set (states (dfa d)). state_insts x \<noteq> [])"
proof -
  from strong_inv_card[OF wf_prog_a_star assms] have "length (states (dfa d)) \<le> 1"
    by (simp add: reach_sigs_prog_a_star)
  moreover have "\<forall>x \<in> set (states (dfa d)). state_insts x \<in> reach_sigs prog_a_star"
    using assms by (simp add: strong_inv_def state_ok_def)
  then have "\<forall>x \<in> set (states (dfa d)). state_insts x \<noteq> []"
    by (simp add: reach_sigs_prog_a_star)
  ultimately show ?thesis by simp
qed

lemma build_byte_prog_a_star:
  assumes inv: "frame_inv prog_a_star f 0 D" and k: "k < 256"
  shows "\<exists>f1. build_byte f 0 k = Inr f1 \<and> frame_inv prog_a_star f1 0 (insert (of_nat k) D) \<and>
              stack f1 = stack (mark_new f (if k = 97 then Some 0 else None)) \<and>
              seen f1 = seen (mark_new f (if k = 97 then Some 0 else None))"
proof -
  have "\<not> StateLimit < card (reach_sigs prog_a_star)"
    by (simp add: reach_sigs_prog_a_star StateLimit_def)
  with build_byte_frame[OF wf_prog_a_star inv, of k] obtain f1 where
    bb: "build_byte f 0 k = Inr f1" and
    fi: "frame_inv prog_a_star f1 0 (insert (of_nat k) D)" by blast
  have s0: "state_insts (states (dfa (bld f)) ! 0) = [1, 3]"
    using inv unfolding frame_inv_def by (simp add: start_sig_prog_a_star)
  from build_byte_target[OF wf_prog_a_star inv bb] obtain r where
    tg: "target_ok (states (dfa (bld f1))) (sig_step prog_a_star [1, 3] (of_nat k)) r" and
    st: "stack f1 = stack (mark_new f r)" "seen f1 = seen (mark_new f r)"
    unfolding s0 by blast
  have "strong_inv prog_a_star (bld f1)" using fi unfolding frame_inv_def by blast
  note one = one_state_prog_a_star[OF this]
  have "r = (if k = 97 then Some 0 else None)"
  proof (cases "k = 97")
    case True
    then have e: "(of_nat k :: byte) = 97" by simp
    have "target_ok (states (dfa (bld f1))) [1, 3] r"
      using tg unfolding e sig_step_prog_a_star_97 .
    then obtain j where "r = Some j" "j < length (states (dfa (bld f1)))"
      by (cases r) (auto simp: target_ok_def)
    with one True show ?thesis by simp
  next
    case False
    then have "(of_nat k :: byte) \<noteq> 97" using of_nat_byte_eq[OF k] by simp
    from sig_step_prog_a_star_other[OF this] have "target_ok (states (dfa (bld f1))) [] r"
      using tg by simp
    from target_ok_Nil[OF this] one False show ?thesis by simp
  qed
  with bb fi st show ?thesis by simp
qed

lemma build_bytes_prog_a_star:
  "set ks \<subseteq> {..<256} \<Longrightarrow> frame_inv prog_a_star f 0 D \<Longrightarrow> seen f \<subseteq> {0} \<Longrightarrow>
   stack f = (if 0 \<in> seen f then [Some 0] else []) \<Longrightarrow>
     \<exists>f1. build_bytes f 0 ks = Inr f1 \<and> seen f1 \<subseteq> {0} \<and>
          stack f1 = (if 0 \<in> seen f1 then [Some 0] else []) \<and>
          (0 \<in> seen f1 \<longleftrightarrow> 0 \<in> seen f \<or> 97 \<in> set ks)"
proof (induction ks arbitrary: f D)
  case Nil
  then show ?case by simp
next
  case (Cons k ks)
  then have k: "k < 256" and ks: "set ks \<subseteq> {..<256}" by simp_all
  from build_byte_prog_a_star[OF Cons.prems(2) k] obtain f1 where
    bb: "build_byte f 0 k = Inr f1" and
    fi: "frame_inv prog_a_star f1 0 (insert (of_nat k) D)" and
    st: "stack f1 = stack (mark_new f (if k = 97 then Some 0 else None))" and
    sn: "seen f1 = seen (mark_new f (if k = 97 then Some 0 else None))" by blast
  have a: "seen f1 \<subseteq> {0}" and b: "stack f1 = (if 0 \<in> seen f1 then [Some 0] else [])"
    and c: "0 \<in> seen f1 \<longleftrightarrow> 0 \<in> seen f \<or> k = 97"
    using Cons.prems(3,4) unfolding st sn by (auto simp: mark_new_def Push_def)
  from Cons.IH[OF ks fi a b] obtain f2 where
    "build_bytes f1 0 ks = Inr f2" "seen f2 \<subseteq> {0}"
    "stack f2 = (if 0 \<in> seen f2 then [Some 0] else [])"
    "0 \<in> seen f2 \<longleftrightarrow> 0 \<in> seen f1 \<or> 97 \<in> set ks" by blast
  with bb c show ?case by auto
qed

text \<open>
  C6, on the program \<open>[Split(1,3), Range('a','a'), Jmp(0), Match]\<close> of \<open>a*\<close>.  The
  closure of instruction 0 becomes state 0, which \<open>build\<close> pops first.  Its visit runs
  through all 256 bytes; at the byte \<open>'a'\<close> the target is state 0 itself, which is not
  in \<open>seen\<close> (the start state is pushed without being marked), so it is pushed.
  After the visit the stack holds state 0 again, and the loop of \<open>build\<close> goes on with a
  second visit of state 0.
\<close>

theorem start_state_visited_twice:
  "\<exists>c1 d1 f1.
     add (dfa (newDfaBuilder prog_a_star)) (newSparseSet 4) 0 = Inr c1 \<and>
     cachedState (newDfaBuilder prog_a_star) c1 = Inr (d1, Some 0) \<and>
     build_bytes \<lparr>bld = d1, cur = c1, nxt = newSparseSet 4, stack = [], seen = {}\<rparr> 0 [0..<256]
       = Inr f1 \<and>
     Pop (stack f1) = ([], Some 0) \<and>
     build (newDfaBuilder prog_a_star) = build_loop (f1\<lparr>stack := []\<rparr>) (Some 0)"
proof -
  let ?p = prog_a_star
  have len: "length ?p = 4" by (simp add: prog_a_star_def)
  from build_init[OF wf_prog_a_star] obtain c1 d1 r where
    a: "add (dfa (newDfaBuilder ?p)) (newSparseSet 4) 0 = Inr c1" and
    cs: "cachedState (newDfaBuilder ?p) c1 = Inr (d1, r)" and
    li: "loop_inv ?p \<lparr>bld = d1, cur = c1, nxt = newSparseSet 4, stack = [], seen = {}\<rparr> r" and
    b: "build (newDfaBuilder ?p) =
          build_loop \<lparr>bld = d1, cur = c1, nxt = newSparseSet 4, stack = [], seen = {}\<rparr> r" and
    tg: "target_ok (states (dfa d1)) (start_sig ?p) r" and
    le: "length (states (dfa d1)) \<le> 1"
    unfolding len by blast
  let ?f = "\<lparr>bld = d1, cur = c1, nxt = newSparseSet 4, stack = [], seen = {}\<rparr>"
  from tg obtain j where "r = Some j" "j < length (states (dfa d1))"
    by (cases r) (auto simp: target_ok_def start_sig_prog_a_star)
  with le have r: "r = Some 0" by simp
  have si: "strong_inv ?p d1" and lt: "0 < length (states (dfa d1))"
    and so: "start_ok ?p (states (dfa d1))"
    using li unfolding loop_inv_def r by simp_all
  have s0: "state_insts (states (dfa d1) ! 0) = start_sig ?p"
    using so lt by (auto simp: start_ok_def)
  have "\<forall>i < length (states (dfa d1)). i = 0" using le by auto
  then have fi: "frame_inv ?p ?f 0 {}"
    unfolding frame_inv_def using si lt s0 by (simp add: stack_ok_def)
  have "set [0..<256] \<subseteq> {..<256::nat}" by auto
  from build_bytes_prog_a_star[OF this fi] obtain f1 where
    bs: "build_bytes ?f 0 [0..<256] = Inr f1" and
    st: "stack f1 = (if 0 \<in> seen f1 then [Some 0] else [])" and
    sn: "0 \<in> seen f1 \<longleftrightarrow> 0 \<in> seen ?f \<or> 97 \<in> set [0..<256]"
    by auto
  have "stack f1 = [Some 0]" using st sn by simp
  then have pop: "Pop (stack f1) = ([], Some 0)" by (simp add: Pop_def)
  have "build (newDfaBuilder ?p) = build_loop (f1\<lparr>stack := []\<rparr>) (Some 0)"
    unfolding b r using bs pop by simp
  with a cs bs pop show ?thesis unfolding r by blast
qed

section \<open>Slots of uncovered bytes hold reject\<close>

lemma run_loop_no_cover:
  "\<forall>ip \<in> set ips. \<not> covers (insts d ! ip) b \<Longrightarrow> run_loop d ips b t m = Inr (t1, m1) \<Longrightarrow>
     t1 = t"
proof (induction ips arbitrary: m)
  case Nil
  then show ?case by simp
next
  case (Cons ip ips)
  then show ?case
    by (cases "op (insts d ! ip)") (auto simp: covers_def split: if_splits)
qed

lemma set_foldl_Add: "set (dense (foldl Add s ips)) = set (dense s) \<union> set ips"
  by (induction ips arbitrary: s) (auto simp: dense_Add)

lemma intern_states:
  assumes "intern d sg = (d1, r)"
  shows "insts (dfa d1) = insts (dfa d) \<and>
         (states (dfa d1) = states (dfa d) \<or>
          states (dfa d1) = states (dfa d) @
            [\<lparr>state_insts = sg, state_next = replicate 256 None,
              state_match = has_match (insts (dfa d)) sg\<rparr>])"
  using assms by (auto simp: intern_def split: if_splits option.splits)

lemma runState_no_cover:
  assumes rs: "runState d c n st b = Inr (d2, c2, n2, r)"
    and nc: "\<forall>ip \<in> set (state_insts (states (dfa d) ! st)). \<not> covers (insts (dfa d) ! ip) b"
  shows "r = None"
proof -
  from runState_Inr[OF rs] obtain m d1 where
    c2: "c2 = foldl Add (Clear c) (state_insts (states (dfa d) ! st))" and
    rn: "run (dfa d) c2 n b = Inr (n2, m)" and cs: "cachedState d n2 = Inr (d1, r)"
    by blast
  have "set (dense c2) = set (state_insts (states (dfa d) ! st))"
    unfolding c2 by (simp add: set_foldl_Add Clear_def)
  with nc have "\<forall>ip \<in> set (dense c2). \<not> covers (insts (dfa d) ! ip) b" by simp
  from run_loop_no_cover[OF this] rn have "n2 = Clear n" by (simp add: run_def)
  then have "signature (insts (dfa d)) (dense n2) = []" by (simp add: Clear_def signature_def)
  with cachedState_Inr[OF cs] show ?thesis by (simp add: intern_def)
qed

lemma cachedState_reject_inv:
  assumes "reject_inv (dfa d)" and "cachedState d s = Inr (d1, r)"
  shows "reject_inv (dfa d1)"
proof -
  from cachedState_Inr[OF assms(2)] have
    "intern d (signature (insts (dfa d)) (dense s)) = (d1, r)" by simp
  note sh = intern_states[OF this]
  show ?thesis
    unfolding reject_inv_def
  proof (intro ballI allI impI)
    fix x b assume x: "x \<in> set (states (dfa d1))"
      and nc: "\<forall>ip \<in> set (state_insts x). \<not> covers (insts (dfa d1) ! ip) b"
    show "state_next x ! unat b = None"
    proof (cases "x \<in> set (states (dfa d))")
      case True
      with assms(1) nc sh show ?thesis unfolding reject_inv_def by auto
    next
      case False
      with x sh have "state_next x = replicate 256 None" by auto
      then show ?thesis using unat_byte_less[of b] by simp
    qed
  qed
qed

lemma runState_reject_inv:
  assumes inv: "reject_inv (dfa d)" and rs: "runState d c n st b = Inr (d2, c2, n2, r)"
  shows "reject_inv (dfa d2)"
proof -
  from runState_Inr[OF rs] obtain d1 where
    lt: "st < length (states (dfa d))" and
    cs: "cachedState d n2 = Inr (d1, r)" and
    ub: "unat b < length (state_next (states (dfa d1) ! st))" and
    d2: "d2 = d1\<lparr>dfa := (dfa d1)\<lparr>states := (states (dfa d1))
                        [st := (states (dfa d1) ! st)
                           \<lparr>state_next := (state_next (states (dfa d1) ! st))[unat b := r]\<rparr>]\<rparr>\<rparr>"
    by blast
  let ?sts1 = "states (dfa d1)"
  let ?old = "?sts1 ! st"
  let ?new = "?old\<lparr>state_next := (state_next ?old)[unat b := r]\<rparr>"
  from cachedState_Inr[OF cs] have
    "intern d (signature (insts (dfa d)) (dense n2)) = (d1, r)" by simp
  note sh = intern_states[OF this]
  have p1: "insts (dfa d1) = insts (dfa d)" using sh by simp
  have same: "?old = states (dfa d) ! st" using sh lt by (auto simp: nth_append)
  have lt1: "st < length ?sts1" using sh lt by auto
  have inv1: "reject_inv (dfa d1)" by (rule cachedState_reject_inv[OF inv cs])
  show ?thesis
    unfolding reject_inv_def
  proof (intro ballI allI impI)
    fix x b' assume x: "x \<in> set (states (dfa d2))"
      and nc: "\<forall>ip \<in> set (state_insts x). \<not> covers (insts (dfa d2) ! ip) b'"
    from x have "x \<in> insert ?new (set ?sts1)"
      using set_update_subset_insert[of ?sts1 st ?new] by (auto simp: d2)
    then consider "x \<in> set ?sts1" | "x = ?new" by auto
    then show "state_next x ! unat b' = None"
    proof cases
      case 1
      with inv1 nc show ?thesis unfolding reject_inv_def by (simp add: d2)
    next
      case 2
      then have nc1: "\<forall>ip \<in> set (state_insts ?old). \<not> covers (insts (dfa d1) ! ip) b'"
        using nc by (simp add: d2)
      show ?thesis
      proof (cases "b' = b")
        case True
        have "r = None"
          using runState_no_cover[OF rs] nc1 True unfolding same p1 by simp
        then show ?thesis using 2 True ub by simp
      next
        case False
        then have "unat b' \<noteq> unat b" by (simp add: word_unat_eq_iff)
        moreover have "state_next ?old ! unat b' = None"
          using inv1 nc1 lt1 unfolding reject_inv_def by simp
        ultimately show ?thesis using 2 by simp
      qed
    qed
  qed
qed

lemma builder_steps_reject_inv:
  "builder_steps d d1 \<Longrightarrow> reject_inv (dfa d) \<Longrightarrow> reject_inv (dfa d1)"
proof (induction rule: builder_steps.induct)
  case (steps_refl d)
  then show ?case .
next
  case (steps_cachedState d d1 s d2 r)
  then show ?case using cachedState_reject_inv[of d1 s d2 r] by simp
next
  case (steps_runState d d1 c n st b d2 c2 n2 r)
  then show ?case using runState_reject_inv[of d1 c n st b d2 c2 n2 r] by simp
qed

lemma build_reject_inv:
  assumes "build (newDfaBuilder p) = Inr dd"
  shows "reject_inv dd \<and> dfa_inv dd \<and> insts dd = p"
proof -
  from build_steps[OF assms] obtain d1 where
    st: "builder_steps (newDfaBuilder p) d1" and dd: "dfa d1 = dd" by blast
  have "reject_inv (dfa (newDfaBuilder p))" by (simp add: reject_inv_def newDfaBuilder_def)
  from builder_steps_reject_inv[OF st this] have "reject_inv dd" using dd by simp
  moreover have "dfa_inv dd"
    using builder_steps_inv[OF st builder_inv_new] dd by (simp add: builder_inv_def)
  moreover have "insts dd = p"
    using builder_steps_cache[OF st cache_inv_new] dd by (simp add: newDfaBuilder_def)
  ultimately show ?thesis by simp
qed

text \<open>
  C7.  In the automaton that \<open>build\<close> returns, for any program, for every state and
  every byte \<open>b\<close> that no \<open>Range\<close> instruction of the state's signature covers, slot \<open>b\<close>
  of the state's transition table exists and holds reject (\<open>nil\<close>).
\<close>

theorem uncovered_byte_rejects:
  assumes "build (newDfaBuilder p) = Inr dd" and "i < length (states dd)"
    and "\<forall>ip \<in> set (state_insts (states dd ! i)).
           \<not> (op (p ! ip) = OpRange \<and> rangeStart (p ! ip) \<le> b \<and> b \<le> rangeEnd (p ! ip))"
  shows "unat b < length (state_next (states dd ! i)) \<and>
         state_next (states dd ! i) ! unat b = None"
proof -
  let ?st = "states dd ! i"
  from build_reject_inv[OF assms(1)] have
    r: "reject_inv dd" and v: "dfa_inv dd" and p: "insts dd = p" by simp_all
  have mem: "?st \<in> set (states dd)" using assms(2) by simp
  have "\<forall>ip \<in> set (state_insts ?st). \<not> covers (insts dd ! ip) b"
    using assms(3) by (simp add: covers_def p)
  with r mem have "state_next ?st ! unat b = None" unfolding reject_inv_def by blast
  moreover have "length (state_next ?st) = 256" using v mem unfolding dfa_inv_def by blast
  ultimately show ?thesis using unat_byte_less[of b] by simp
qed

theorem uncovered_byte_rejects_witness:
  "wf_prog prog_a \<and> build (newDfaBuilder prog_a) = Inr dfa_a \<and> 0 < length (states dfa_a) \<and>
   state_insts (states dfa_a ! 0) = [0] \<and> \<not> covers (prog_a ! 0) 98 \<and>
   unat (98 :: byte) < length (state_next (states dfa_a ! 0)) \<and>
   state_next (states dfa_a ! 0) ! unat (98 :: byte) = None"
proof -
  have l: "0 < length (states dfa_a)" and s: "state_insts (states dfa_a ! 0) = [0]"
    by (simp_all add: dfa_a_def)
  have nc: "\<not> covers (prog_a ! 0) 98"
    by (simp add: covers_def prog_a_def iRange_def)
  have h: "\<forall>ip \<in> set (state_insts (states dfa_a ! 0)).
             \<not> (op (prog_a ! ip) = OpRange \<and> rangeStart (prog_a ! ip) \<le> 98 \<and>
                98 \<le> rangeEnd (prog_a ! ip))"
    using nc unfolding s by (simp add: covers_def)
  from uncovered_byte_rejects[OF build_prog_a l h] wf_prog_a build_prog_a l s nc
  show ?thesis by simp
qed

section \<open>A program that ends in a \<open>Range\<close>\<close>

text \<open>
  The program \<open>[Range('a','a')]\<close> has no \<open>Jmp\<close> and no \<open>Split\<close>, so all its targets are
  in bounds, but the fall-through of its last instruction leaves it: at byte \<open>'a'\<close> the
  byte step calls \<open>add\<close> on index 1, which indexes \<open>insts\<close> out of range.
\<close>

lemma targets_range_only: "targets_in_bounds [iRange 97 97]"
  by (simp add: targets_in_bounds_def iRange_def)

lemma add_range_only:
  "add (dfa_of [iRange 97 97]) (newSparseSet 1) 0 = Inr \<lparr>capacity = 1, dense = [0]\<rparr>"
  by code_simp

lemma run_range_only:
  "run (dfa_of [iRange 97 97]) \<lparr>capacity = 1, dense = [0]\<rparr> (newSparseSet 1) 97 =
     Inl IndexOutOfRange"
  by code_simp

lemma start_sig_range_only: "start_sig [iRange 97 97] = [0]"
  by code_simp

lemma sig_step_range_only: "sig_step [iRange 97 97] [0] b = []"
proof (cases "b = 97")
  case True
  then show ?thesis using run_range_only by (simp add: sig_step_def)
next
  case False
  then show ?thesis
    by (simp add: sig_step_def run_def dfa_of_def iRange_def byte_between signature_def
          Clear_def newSparseSet_def)
qed

lemma reach_sigs_range_only: "reach_sigs [iRange 97 97] = {[0]}"
proof
  show "reach_sigs [iRange 97 97] \<subseteq> {[0]}"
  proof
    fix sg assume "sg \<in> reach_sigs [iRange 97 97]"
    then show "sg \<in> {[0]}"
    proof (induction rule: reach_sigs.induct)
      case reach_start
      then show ?case by (simp add: start_sig_range_only)
    next
      case (reach_step sg b)
      then show ?case by (simp add: sig_step_range_only)
    qed
  qed
next
  show "{[0]} \<subseteq> reach_sigs [iRange 97 97]"
    using reach_start[of "[iRange 97 97]"] by (simp add: start_sig_range_only)
qed

text \<open>
  While \<open>build\<close> visits state 0, the builder holds the program and state 0 has the
  signature \<open>[0]\<close> and a table of 256 slots.  A byte other than \<open>'a'\<close> keeps this; the
  byte \<open>'a'\<close> ends the build with the index error.
\<close>

lemma runState_range_only_other:
  assumes "insts (dfa d) = [iRange 97 97]" and "states (dfa d) \<noteq> []"
    and "state_insts (states (dfa d) ! 0) = [0]"
    and "length (state_next (states (dfa d) ! 0)) = 256"
    and "b \<noteq> 97"
  shows "\<exists>d1 c1 n1. runState d c n 0 b = Inr (d1, c1, n1, None) \<and>
           insts (dfa d1) = [iRange 97 97] \<and> length (states (dfa d1)) = length (states (dfa d)) \<and>
           state_insts (states (dfa d1) ! 0) = [0] \<and>
           length (state_next (states (dfa d1) ! 0)) = 256"
  using assms unat_byte_less[of b]
  by (simp add: runState_def run_def cachedState_def Let_def Clear_def Add_def Contains_def
        iRange_def byte_between)

lemma runState_range_only_97:
  assumes "insts (dfa d) = [iRange 97 97]" and "states (dfa d) \<noteq> []"
    and "state_insts (states (dfa d) ! 0) = [0]"
  shows "runState d c n 0 97 = Inl IndexOutOfRange"
  using assms
  by (simp add: runState_def run_def Let_def Clear_def Add_def Contains_def iRange_def
        add.simps)

lemma build_byte_range_only_other:
  assumes "insts (dfa (bld f)) = [iRange 97 97]" and "length (states (dfa (bld f))) = 1"
    and "state_insts (states (dfa (bld f)) ! 0) = [0]"
    and "length (state_next (states (dfa (bld f)) ! 0)) = 256"
    and "k < 256" and "k \<noteq> 97"
  shows "\<exists>f1. build_byte f 0 k = Inr f1 \<and>
           insts (dfa (bld f1)) = [iRange 97 97] \<and> length (states (dfa (bld f1))) = 1 \<and>
           state_insts (states (dfa (bld f1)) ! 0) = [0] \<and>
           length (state_next (states (dfa (bld f1)) ! 0)) = 256"
proof -
  have b: "(of_nat k :: byte) \<noteq> 97" using assms(5,6) by (simp add: of_nat_byte_eq)
  have ne: "states (dfa (bld f)) \<noteq> []" using assms(2) by auto
  from runState_range_only_other[OF assms(1) ne assms(3,4) b, of "cur f" "nxt f"]
  obtain d1 c1 n1 where
    rs: "runState (bld f) (cur f) (nxt f) 0 (of_nat k) = Inr (d1, c1, n1, None)" and
    i: "insts (dfa d1) = [iRange 97 97]" and l: "length (states (dfa d1)) = 1" and
    s: "state_insts (states (dfa d1) ! 0) = [0]" and
    n: "length (state_next (states (dfa d1) ! 0)) = 256"
    using assms(2) by auto
  show ?thesis using rs i l s n
    by (simp add: build_byte_def mark_new_def StateLimit_def)
qed

lemma build_bytes_range_only:
  "insts (dfa (bld f)) = [iRange 97 97] \<Longrightarrow> length (states (dfa (bld f))) = 1 \<Longrightarrow>
   state_insts (states (dfa (bld f)) ! 0) = [0] \<Longrightarrow>
   length (state_next (states (dfa (bld f)) ! 0)) = 256 \<Longrightarrow>
   set ks \<subseteq> {..<256} \<Longrightarrow> 97 \<notin> set ks \<Longrightarrow>
     build_bytes f 0 (ks @ 97 # rest) = Inl IndexOutOfRange"
proof (induction ks arbitrary: f)
  case Nil
  then have "states (dfa (bld f)) \<noteq> []" by auto
  from runState_range_only_97[OF Nil(1) this Nil(3), of "cur f" "nxt f"] show ?case
    by (simp add: build_byte_def)
next
  case (Cons k ks)
  then have k: "k < 256" "k \<noteq> 97" by auto
  from build_byte_range_only_other[OF Cons.prems(1-4) k] obtain f1 where
    bb: "build_byte f 0 k = Inr f1" and
    i: "insts (dfa (bld f1)) = [iRange 97 97]" and l: "length (states (dfa (bld f1))) = 1" and
    s: "state_insts (states (dfa (bld f1)) ! 0) = [0]" and
    n: "length (state_next (states (dfa (bld f1)) ! 0)) = 256"
    by blast
  from Cons.prems(5,6) have "set ks \<subseteq> {..<256}" "97 \<notin> set ks" by auto
  from Cons.IH[OF i l s n this] bb show ?case by simp
qed

lemma bytes_around_97: "[0..<256] = [0..<97] @ 97 # [98..<256]"
proof -
  have "[0..<256] = [0..<97] @ [97..<256]" using upt_add_eq_append[of 0 97 159] by simp
  moreover have "[97..<256] = 97 # [98..<256]" by (simp add: upt_rec[of 97])
  ultimately show ?thesis by simp
qed

lemma build_range_only: "build (newDfaBuilder [iRange 97 97]) = Inl IndexOutOfRange"
proof -
  let ?p = "[iRange 97 97]"
  let ?c = "\<lparr>capacity = 1, dense = [0::nat]\<rparr>"
  have a: "add (dfa (newDfaBuilder ?p)) (newSparseSet (length (insts (dfa (newDfaBuilder ?p))))) 0 = Inr ?c"
    using add_range_only by (simp add: dfa_newDfaBuilder dfa_of_def)
  obtain d1 where cs: "cachedState (newDfaBuilder ?p) ?c = Inr (d1, Some 0)" and
    i: "insts (dfa d1) = ?p" and l: "length (states (dfa d1)) = 1" and
    s: "state_insts (states (dfa d1) ! 0) = [0]" and
    n: "length (state_next (states (dfa d1) ! 0)) = 256"
    by (simp add: cachedState_def newDfaBuilder_def Let_def iRange_def)
  let ?f = "\<lparr>bld = d1, cur = ?c, nxt = newSparseSet (length (insts (dfa (newDfaBuilder ?p)))),
             stack = [], seen = {}\<rparr>"
  have bb: "build_bytes ?f 0 [0..<256] = Inl IndexOutOfRange"
    unfolding bytes_around_97
    by (rule build_bytes_range_only) (auto simp: i l s n)
  have "build (newDfaBuilder ?p) = build_loop ?f (Some 0)"
    using a cs by (simp add: build_def Let_def Pop_def)
  then show ?thesis using bb by simp
qed

text \<open>
  The unrestricted statement of C1 fails on this program: it has one reachable
  signature, which is within the limit, and its targets are in bounds, but \<open>build\<close>
  returns neither an automaton nor \<open>ErrTooManyStates\<close>.
\<close>

theorem build_fails_on_trailing_range:
  "targets_in_bounds [iRange 97 97] \<and>
   card (reach_sigs [iRange 97 97]) = 1 \<and> card (reach_sigs [iRange 97 97]) \<le> StateLimit \<and>
   build (newDfaBuilder [iRange 97 97]) = Inl IndexOutOfRange \<and>
   build (newDfaBuilder [iRange 97 97]) \<noteq> Inl ErrTooManyStates \<and>
   (\<nexists>dd. build (newDfaBuilder [iRange 97 97]) = Inr dd)"
  by (simp add: targets_range_only reach_sigs_range_only build_range_only StateLimit_def)

text \<open>
  The unrestricted statement of C5 fails on this program: on the from-set that holds
  instruction 0, which is the closure of instruction 0, and the byte \<open>'a'\<close>, \<open>run\<close>
  returns no to-set and no flag.
\<close>

theorem run_fails_on_trailing_range:
  "targets_in_bounds (insts (dfa_of [iRange 97 97])) \<and>
   add (dfa_of [iRange 97 97]) (newSparseSet 1) 0 = Inr \<lparr>capacity = 1, dense = [0]\<rparr> \<and>
   run (dfa_of [iRange 97 97]) \<lparr>capacity = 1, dense = [0]\<rparr> (newSparseSet 1) 97 =
     Inl IndexOutOfRange \<and>
   (\<nexists>toSet1 wasMatch.
      run (dfa_of [iRange 97 97]) \<lparr>capacity = 1, dense = [0]\<rparr> (newSparseSet 1) 97 =
        Inr (toSet1, wasMatch))"
proof -
  have t: "targets_in_bounds (insts (dfa_of [iRange 97 97]))"
    by (simp add: dfa_of_def targets_range_only)
  have n: "\<nexists>toSet1 wasMatch.
      run (dfa_of [iRange 97 97]) \<lparr>capacity = 1, dense = [0]\<rparr> (newSparseSet 1) 97 =
        Inr (toSet1, wasMatch)"
    unfolding run_range_only by simp
  from t add_range_only run_range_only n show ?thesis by (intro conjI)
qed

end
